theory Spec2Isabelle
  imports Main "HOL-Library.Word"
begin

unbundle bit_operations_syntax

section \<open>Modbus RTU client for the HS321 drive: machine types and abnormal outcomes\<close>

text \<open>
  The source (\<open>src/src/HS321.cpp\<close>, \<open>src/src/HS321.h\<close>) is C++ for Arduino boards.
  \<open>uint8_t\<close> is \<open>8 word\<close>, \<open>uint16_t\<close> is \<open>16 word\<close>, \<open>unsigned long\<close> is
  \<open>32 word\<close> (its width on the Arduino targets). \<open>size_t\<close> values are \<open>nat\<close>: the
  \<open>size_t\<close> computations of the source either follow the bound of 125 or 123 on the
  count or subtract 2 from a size that is at least 4, so none of them wraps; where a
  \<open>size_t\<close> is passed to a narrower parameter or multiplied into an \<open>unsigned long\<close>
  the conversion is written out (\<open>of_nat\<close> into the word type).

  A pointer to an array is an \<open>option\<close>: \<open>None\<close> is \<open>nullptr\<close>, \<open>Some xs\<close> points to
  an array whose allocated cells are \<open>xs\<close>. C++ gives no meaning to an access outside
  the array or through a null pointer; the model stops there with an \<open>abort\<close> value.
\<close>

datatype abort =
    NullDeref      \<comment> \<open>a member call or access through \<open>nullptr\<close>\<close>
  | OutOfBounds    \<comment> \<open>an array access outside the allocated cells\<close>
  | ScriptEnd      \<comment> \<open>the environment's scripted answers ran out (see \<open>world\<close>)\<close>

section \<open>CRC16 engine\<close>

text \<open>
  \<open>HS321::calculateCRC\<close> (HS321.cpp, lines 435-462). The body of the inner loop:
  \<^verbatim>\<open>if (crc & 0x0001) crc = (crc >> 1) ^ 0xA001; else crc = crc >> 1;\<close>
\<close>

definition crc_shift :: "16 word \<Rightarrow> 16 word" where
  "crc_shift crc =
     (if crc AND 0x0001 \<noteq> 0 then drop_bit 1 crc XOR 0xA001 else drop_bit 1 crc)"

text \<open>\<^verbatim>\<open>for (uint8_t j = 0; j < 8; j++) { ... }\<close>\<close>

function crc_bit_loop :: "nat \<Rightarrow> 16 word \<Rightarrow> 16 word" where
  "crc_bit_loop j crc = (if j < 8 then crc_bit_loop (j + 1) (crc_shift crc) else crc)"
  by pat_completeness auto
termination
  by (relation "measure (\<lambda>(j, crc). 8 - j)") auto

text \<open>
  \<^verbatim>\<open>for (uint8_t i = 0; i < length; i++) { crc ^= data[i]; <bit loop> }\<close>
  The counter \<open>i\<close> stays below \<open>length \<le> 255\<close>, so \<open>i++\<close> never wraps and \<open>i\<close> is a
  \<open>nat\<close>. Reading \<open>data[i]\<close> beyond the array is \<open>OutOfBounds\<close>.
\<close>

function crc_byte_loop :: "8 word list \<Rightarrow> 8 word \<Rightarrow> nat \<Rightarrow> 16 word \<Rightarrow> abort + 16 word" where
  "crc_byte_loop data len i crc =
     (if i < unat len then
        (if i < length data
         then crc_byte_loop data len (i + 1) (crc_bit_loop 0 (crc XOR ucast (data ! i)))
         else Inl OutOfBounds)
      else Inr crc)"
  by pat_completeness auto
termination
  by (relation "measure (\<lambda>(data, len, i, crc). unat len - i)") auto

definition calculateCRC :: "8 word list option \<Rightarrow> 8 word \<Rightarrow> abort + 16 word" where
  "calculateCRC data len =
     (case data of
        None \<Rightarrow> Inr 0xFFFF
      | Some ds \<Rightarrow> if len = 0 then Inr 0xFFFF else crc_byte_loop ds len 0 0xFFFF)"

text \<open>
  The CRC as the specification words it (section 4.1): seed \<open>0xFFFF\<close>; for each byte,
  XOR it into the running value, then eight times "if the low bit is set, shift right
  and XOR \<open>0xA001\<close>, else shift right".
\<close>

definition spec_crc_round :: "16 word \<Rightarrow> 16 word" where
  "spec_crc_round c = (if bit c 0 then drop_bit 1 c XOR 0xA001 else drop_bit 1 c)"

definition spec_crc16 :: "8 word list \<Rightarrow> 16 word" where
  "spec_crc16 bs = foldl (\<lambda>c b. (spec_crc_round ^^ 8) (c XOR ucast b)) 0xFFFF bs"

section \<open>The hardware seen through the Arduino calls\<close>

text \<open>
  The class talks to the board through \<open>pinMode\<close>, \<open>digitalWrite\<close>, \<open>millis\<close> and the
  \<open>HardwareSerial\<close> members \<open>begin\<close>, \<open>println\<close>, \<open>write\<close>, \<open>flush\<close>, \<open>available\<close>
  and \<open>read\<close>. The \<open>world\<close> records every output call in order (\<open>calls\<close>), the level
  of each digital pin, and the answers the environment will give to the input calls:
  the successive results of \<open>millis()\<close>, of \<open>available()\<close> and of \<open>read()\<close>. An input
  call takes the next answer; when none is left the run stops with \<open>ScriptEnd\<close>.
  Nothing is assumed about the answers: the clock may stand still or wrap, and
  \<open>available()\<close> may report anything.
\<close>

datatype level = LOW | HIGH

definition RS485Transmit :: level where
  "RS485Transmit = HIGH"

definition RS485Receive :: level where
  "RS485Receive = LOW"

datatype pin_mode = INPUT | OUTPUT

type_synonym port = nat  \<comment> \<open>names a \<open>HardwareSerial\<close> object\<close>

datatype message = PortIsNull | InitDone  \<comment> \<open>the two debug texts of \<open>begin\<close>\<close>

datatype hw_call =
    SerialBegin port "32 word"
  | SerialPrintln port message
  | PinMode "8 word" pin_mode
  | DigitalWrite "8 word" level
  | SerialWrite port "8 word list"
  | SerialFlush port

record world =
  calls :: "hw_call list"
  pin_level :: "8 word \<Rightarrow> level"
  millis_in :: "32 word list"
  available_in :: "int list"
  read_in :: "int list"

definition pinMode :: "8 word \<Rightarrow> pin_mode \<Rightarrow> world \<Rightarrow> world" where
  "pinMode p m w = w\<lparr>calls := calls w @ [PinMode p m]\<rparr>"

definition digitalWrite :: "8 word \<Rightarrow> level \<Rightarrow> world \<Rightarrow> world" where
  "digitalWrite p l w = w\<lparr>calls := calls w @ [DigitalWrite p l], pin_level := (pin_level w)(p := l)\<rparr>"

definition millis :: "world \<Rightarrow> (abort + 32 word) \<times> world" where
  "millis w =
     (case millis_in w of
        [] \<Rightarrow> (Inl ScriptEnd, w)
      | t # ts \<Rightarrow> (Inr t, w\<lparr>millis_in := ts\<rparr>))"

definition serial_begin :: "port \<Rightarrow> 32 word \<Rightarrow> world \<Rightarrow> world" where
  "serial_begin p b w = w\<lparr>calls := calls w @ [SerialBegin p b]\<rparr>"

definition serial_println :: "port \<Rightarrow> message \<Rightarrow> world \<Rightarrow> world" where
  "serial_println p m w = w\<lparr>calls := calls w @ [SerialPrintln p m]\<rparr>"

text \<open>\<open>_serialPort->write(data, length)\<close>: the first \<open>length\<close> cells of \<open>data\<close> go out.\<close>

definition serial_write ::
  "port option \<Rightarrow> 8 word list option \<Rightarrow> nat \<Rightarrow> world \<Rightarrow> (abort + unit) \<times> world" where
  "serial_write sp data len w =
     (case sp of
        None \<Rightarrow> (Inl NullDeref, w)
      | Some p \<Rightarrow>
          (case data of
             None \<Rightarrow> (if len = 0 then (Inr (), w\<lparr>calls := calls w @ [SerialWrite p []]\<rparr>)
                      else (Inl NullDeref, w))
           | Some ds \<Rightarrow>
               if len \<le> length ds
               then (Inr (), w\<lparr>calls := calls w @ [SerialWrite p (take len ds)]\<rparr>)
               else (Inl OutOfBounds, w)))"

definition serial_flush :: "port option \<Rightarrow> world \<Rightarrow> (abort + unit) \<times> world" where
  "serial_flush sp w =
     (case sp of
        None \<Rightarrow> (Inl NullDeref, w)
      | Some p \<Rightarrow> (Inr (), w\<lparr>calls := calls w @ [SerialFlush p]\<rparr>))"

definition serial_available :: "port option \<Rightarrow> world \<Rightarrow> (abort + int) \<times> world" where
  "serial_available sp w =
     (case sp of
        None \<Rightarrow> (Inl NullDeref, w)
      | Some p \<Rightarrow>
          (case available_in w of
             [] \<Rightarrow> (Inl ScriptEnd, w)
           | a # as \<Rightarrow> (Inr a, w\<lparr>available_in := as\<rparr>)))"

definition serial_read :: "port option \<Rightarrow> world \<Rightarrow> (abort + int) \<times> world" where
  "serial_read sp w =
     (case sp of
        None \<Rightarrow> (Inl NullDeref, w)
      | Some p \<Rightarrow>
          (case read_in w of
             [] \<Rightarrow> (Inl ScriptEnd, w)
           | b # bs \<Rightarrow> (Inr b, w\<lparr>read_in := bs\<rparr>)))"

section \<open>The client object\<close>

text \<open>The private members of \<open>class HS321\<close> (HS321.h, lines 260-267).\<close>

record client =
  initialized :: bool
  slaveAddress :: "8 word"
  serialPort :: "port option"
  serialDebug :: "port option"
  baud :: "32 word"
  transmitterModeContact :: "8 word"
  totalTimeout :: "32 word"
  interCharTimeout :: "32 word"

text \<open>\<open>enum CodeFunction : uint8_t\<close> (HS321.h, lines 273-277).\<close>

definition READ :: "8 word" where
  "READ = 0x03"

definition WRITE_ONE :: "8 word" where
  "WRITE_ONE = 0x06"

definition WRITE_RANGE :: "8 word" where
  "WRITE_RANGE = 0x10"

text \<open>
  The constructor (HS321.cpp, lines 24-32); \<open>_initialized\<close> takes its default member
  initialiser \<open>false\<close>.
\<close>

definition HS321 :: "8 word \<Rightarrow> port option \<Rightarrow> port option \<Rightarrow> 32 word \<Rightarrow> 8 word \<Rightarrow> client" where
  "HS321 slaveAddr port dbg bd contact =
     \<lparr>initialized = False, slaveAddress = slaveAddr, serialPort = port, serialDebug = dbg,
      baud = bd, transmitterModeContact = contact, totalTimeout = 0, interCharTimeout = 0\<rparr>"

text \<open>
  \<open>HS321::begin\<close> (HS321.cpp, lines 40-80). The inter-character timeout is the
  floating-point expression \<open>3.5 * 10 * 1000000 / _baud\<close> converted to
  \<open>unsigned long\<close>; its value is the parameter \<open>ict\<close>.
\<close>

definition HS321_begin :: "32 word \<Rightarrow> client \<Rightarrow> world \<Rightarrow> client \<times> world" where
  "HS321_begin ict c w =
     (case serialPort c of
        None \<Rightarrow>
          (c\<lparr>initialized := False\<rparr>,
           (case serialDebug c of None \<Rightarrow> w | Some d \<Rightarrow> serial_println d PortIsNull w))
      | Some p \<Rightarrow>
          (let w1 = (case serialDebug c of None \<Rightarrow> w | Some d \<Rightarrow> serial_begin d (baud c) w);
               w2 = serial_begin p (baud c) w1;
               w3 = pinMode (transmitterModeContact c) OUTPUT w2;
               w4 = digitalWrite (transmitterModeContact c) RS485Receive w3;
               c1 = c\<lparr>totalTimeout := 2000, interCharTimeout := ict, initialized := True\<rparr>;
               w5 = (case serialDebug c of None \<Rightarrow> w4 | Some d \<Rightarrow> serial_println d InitDone w4)
           in (c1, w5)))"

definition isInitialized :: "client \<Rightarrow> bool" where
  "isInitialized c = initialized c"

section \<open>Half-duplex line controller and transmission\<close>

text \<open>\<open>HS321::sendData\<close> (HS321.cpp, lines 473-493).\<close>

definition sendData :: "client \<Rightarrow> 8 word list option \<Rightarrow> nat \<Rightarrow> world \<Rightarrow> (abort + unit) \<times> world" where
  "sendData c data len w =
     (let w1 = digitalWrite (transmitterModeContact c) RS485Transmit w in
      case serial_write (serialPort c) data len w1 of
        (Inl e, w2) \<Rightarrow> (Inl e, w2)
      | (Inr u, w2) \<Rightarrow>
          (case serial_flush (serialPort c) w2 of
             (Inl e, w3) \<Rightarrow> (Inl e, w3)
           | (Inr u', w3) \<Rightarrow> (Inr (), digitalWrite (transmitterModeContact c) RS485Receive w3)))"

section \<open>Timed frame receiver\<close>

text \<open>
  \<open>HS321::receiveData\<close> (HS321.cpp, lines 506-596). The inner loop
  \<^verbatim>\<open>while (_serialPort->available() > 0 && bytesRead < length) {
      buffer[bytesRead] = _serialPort->read(); bytesRead++; lastByteTime = millis(); }\<close>
  works on the triple (buffer cells, \<open>bytesRead\<close>, \<open>lastByteTime\<close>). \<open>available()\<close> is
  the left operand of \<open>&&\<close>, so it is called at every test of the condition. \<open>read()\<close>
  returns an \<open>int\<close> that the assignment truncates to a byte.
\<close>

function drain ::
  "port option \<Rightarrow> nat \<Rightarrow> 8 word list \<times> nat \<times> 32 word \<Rightarrow> world \<Rightarrow>
     (abort + 8 word list \<times> nat \<times> 32 word) \<times> world" where
  "drain sp len (buffer, bytesRead, lastByteTime) w =
     (case serial_available sp w of
        (Inl e, w1) \<Rightarrow> (Inl e, w1)
      | (Inr a, w1) \<Rightarrow>
          if a > 0 \<and> bytesRead < len then
            (case serial_read sp w1 of
               (Inl e, w2) \<Rightarrow> (Inl e, w2)
             | (Inr b, w2) \<Rightarrow>
                 if bytesRead < length buffer then
                   (case millis w2 of
                      (Inl e, w3) \<Rightarrow> (Inl e, w3)
                    | (Inr t, w3) \<Rightarrow>
                        drain sp len (buffer[bytesRead := of_int b], bytesRead + 1, t) w3)
                 else (Inl OutOfBounds, w2))
          else (Inr (buffer, bytesRead, lastByteTime), w1))"
  by pat_completeness auto
termination
  by (relation "measure (\<lambda>(sp, len, (buffer, bytesRead, lastByteTime), w). len - bytesRead)") auto

text \<open>How the outer loop was left: by its condition, or by one of the two \<open>break\<close>s.\<close>

datatype loop_exit = LoopCondition | TotalTimeout | InterCharTimeout

text \<open>
  The outer loop \<^verbatim>\<open>while (bytesRead < length) { ... }\<close> with its two \<open>break\<close>s. Time
  differences are \<open>unsigned long\<close> subtractions and wrap around. Every iteration calls
  \<open>millis()\<close> at least once, so the loop ends at the latest when the scripted clock
  answers are used up.
\<close>

function recv_loop ::
  "client \<Rightarrow> nat \<Rightarrow> 32 word \<Rightarrow> 8 word list \<times> nat \<times> 32 word \<Rightarrow> world \<Rightarrow>
     (abort + loop_exit \<times> 8 word list \<times> nat) \<times> world" where
  "recv_loop c len charTimeout (buffer, bytesRead, lastByteTime) w =
     (if bytesRead < len then
        (case millis w of
           (Inl e, w1) \<Rightarrow> (Inl e, w1)
         | (Inr now, w1) \<Rightarrow>
             if now - lastByteTime > totalTimeout c then (Inr (TotalTimeout, buffer, bytesRead), w1)
             else
               (case drain (serialPort c) len (buffer, bytesRead, lastByteTime) w1 of
                  (Inl e, w2) \<Rightarrow> (Inl e, w2)
                | (Inr (buffer', bytesRead', lastByteTime'), w2) \<Rightarrow>
                    if bytesRead' < len then
                      (case serial_available (serialPort c) w2 of
                         (Inl e, w3) \<Rightarrow> (Inl e, w3)
                       | (Inr a, w3) \<Rightarrow>
                           if a = 0 then
                             (case millis w3 of
                                (Inl e, w4) \<Rightarrow> (Inl e, w4)
                              | (Inr now', w4) \<Rightarrow>
                                  if now' - lastByteTime' > charTimeout
                                  then (Inr (InterCharTimeout, buffer', bytesRead'), w4)
                                  else recv_loop c len charTimeout (buffer', bytesRead', lastByteTime') w4)
                           else recv_loop c len charTimeout (buffer', bytesRead', lastByteTime') w3)
                    else recv_loop c len charTimeout (buffer', bytesRead', lastByteTime') w2))
      else (Inr (LoopCondition, buffer, bytesRead), w))"
  by pat_completeness auto
termination
proof -
  have millis_len: "length (millis_in w') < length (millis_in w)"
    if "millis w = (Inr t, w')" for w w' t
    using that by (auto simp: millis_def split: list.splits)
  have avail_len: "millis_in w' = millis_in w"
    if "serial_available sp w = (r, w')" for sp w w' r
    using that by (auto simp: serial_available_def split: option.splits list.splits)
  have read_len: "millis_in w' = millis_in w"
    if "serial_read sp w = (r, w')" for sp w w' r
    using that by (auto simp: serial_read_def split: option.splits list.splits)
  have millis_le: "length (millis_in w') \<le> length (millis_in w)"
    if "millis w = (r, w')" for w w' r
    using that by (auto simp: millis_def split: list.splits)
  have drain_len: "length (millis_in (snd (drain sp len st w))) \<le> length (millis_in w)"
    for sp len st w
  proof (induction sp len st w rule: drain.induct)
    case (1 sp len buffer bytesRead lastByteTime w)
    obtain r1 w1 where a: "serial_available sp w = (r1, w1)" by (cases "serial_available sp w")
    obtain r2 w2 where b: "serial_read sp w1 = (r2, w2)" by (cases "serial_read sp w1")
    obtain r3 w3 where m: "millis w2 = (r3, w3)" by (cases "millis w2")
    have l1: "millis_in w1 = millis_in w" using avail_len[OF a] .
    have l2: "millis_in w2 = millis_in w" using read_len[OF b] l1 by simp
    have l3: "length (millis_in w3) \<le> length (millis_in w)" using millis_le[OF m] l2 by simp
    show ?case
    proof (cases r1)
      case (Inl e)
      then show ?thesis using a l1 by (subst drain.simps) simp
    next
      case (Inr av)
      note r1 = this
      show ?thesis
      proof (cases "av > 0 \<and> bytesRead < len")
        case False
        then show ?thesis using a r1 l1 by (subst drain.simps) auto
      next
        case True
        note go = this
        show ?thesis
        proof (cases r2)
          case (Inl e)
          then show ?thesis using a r1 go b l2 by (subst drain.simps) simp
        next
          case (Inr byte)
          note r2 = this
          show ?thesis
          proof (cases "bytesRead < length buffer")
            case False
            then show ?thesis using a r1 go b r2 l2 by (subst drain.simps) simp
          next
            case True
            note inb = this
            show ?thesis
            proof (cases r3)
              case (Inl e)
              then show ?thesis using a r1 go b r2 inb m l3 by (subst drain.simps) simp
            next
              case (Inr t)
              have "length (millis_in (snd (drain sp len (buffer[bytesRead := of_int byte], bytesRead + 1, t) w3)))
                      \<le> length (millis_in w3)"
                using "1.IH"[OF a[symmetric, unfolded r1] refl go b[symmetric, unfolded r2] refl inb m[symmetric, unfolded Inr] refl] .
              then show ?thesis using a r1 go b r2 inb m Inr l3 by (subst drain.simps) simp
            qed
          qed
        qed
      qed
    qed
  qed
  show ?thesis
  proof (relation "measure (\<lambda>(c, len, ct, st, w). length (millis_in w))")
    show "wf (measure (\<lambda>(c, len, ct, st, w). length (millis_in w)))" by simp
  next
    fix c :: client and len :: nat and charTimeout lastByteTime now now' lastByteTime' :: "32 word"
      and buffer buffer' :: "8 word list" and bytesRead bytesRead' :: nat
      and w w1 w2 w3 w4 :: world and x1 x2 x3 x4 and y2 y3 and a :: int
    assume m1: "(x1, w1) = millis w" "x1 = Inr now"
      and d: "(x2, w2) = drain (serialPort c) len (buffer, bytesRead, lastByteTime) w1"
      and av: "(x3, w3) = serial_available (serialPort c) w2"
      and m2: "(x4, w4) = millis w3" "x4 = Inr now'"
    have "length (millis_in w4) < length (millis_in w3)" using m2 millis_len[of w3 now' w4] by simp
    moreover have "millis_in w3 = millis_in w2" using avail_len[OF av[symmetric]] .
    moreover have "length (millis_in w2) \<le> length (millis_in w1)"
      using drain_len[of "serialPort c" len "(buffer, bytesRead, lastByteTime)" w1] d[symmetric] by simp
    moreover have "length (millis_in w1) < length (millis_in w)" using m1 millis_len[of w now w1] by simp
    ultimately show "((c, len, charTimeout, (buffer', bytesRead', lastByteTime'), w4),
                      (c, len, charTimeout, (buffer, bytesRead, lastByteTime), w))
                     \<in> measure (\<lambda>(c, len, ct, st, w). length (millis_in w))"
      by simp
  next
    fix c :: client and len :: nat and charTimeout lastByteTime now lastByteTime' :: "32 word"
      and buffer buffer' :: "8 word list" and bytesRead bytesRead' :: nat
      and w w1 w2 w3 :: world and x1 x2 x3
    assume m1: "(x1, w1) = millis w" "x1 = Inr now"
      and d: "(x2, w2) = drain (serialPort c) len (buffer, bytesRead, lastByteTime) w1"
      and av: "(x3, w3) = serial_available (serialPort c) w2"
    have "millis_in w3 = millis_in w2" using avail_len[OF av[symmetric]] .
    moreover have "length (millis_in w2) \<le> length (millis_in w1)"
      using drain_len[of "serialPort c" len "(buffer, bytesRead, lastByteTime)" w1] d[symmetric] by simp
    moreover have "length (millis_in w1) < length (millis_in w)" using m1 millis_len[of w now w1] by simp
    ultimately show "((c, len, charTimeout, (buffer', bytesRead', lastByteTime'), w3),
                      (c, len, charTimeout, (buffer, bytesRead, lastByteTime), w))
                     \<in> measure (\<lambda>(c, len, ct, st, w). length (millis_in w))"
      by simp
  next
    fix c :: client and len :: nat and charTimeout lastByteTime now lastByteTime' :: "32 word"
      and buffer buffer' :: "8 word list" and bytesRead bytesRead' :: nat
      and w w1 w2 :: world and x1 x2
    assume m1: "(x1, w1) = millis w" "x1 = Inr now"
      and d: "(x2, w2) = drain (serialPort c) len (buffer, bytesRead, lastByteTime) w1"
    have "length (millis_in w2) \<le> length (millis_in w1)"
      using drain_len[of "serialPort c" len "(buffer, bytesRead, lastByteTime)" w1] d[symmetric] by simp
    moreover have "length (millis_in w1) < length (millis_in w)" using m1 millis_len[of w now w1] by simp
    ultimately show "((c, len, charTimeout, (buffer', bytesRead', lastByteTime'), w2),
                      (c, len, charTimeout, (buffer, bytesRead, lastByteTime), w))
                     \<in> measure (\<lambda>(c, len, ct, st, w). length (millis_in w))"
      by simp
  qed
qed

text \<open>
  \<open>receiveData\<close> itself. \<open>charTimeout\<close> is
  \<^verbatim>\<open>static_cast<unsigned long>(ceil(_interCharTimeout * length / 1000))\<close>: the product and
  the quotient are \<open>unsigned long\<close> arithmetic, the quotient is below \<open>2^23\<close> and so
  converts to floating point and back unchanged, and \<open>ceil\<close> of a whole number is that
  number. The result carries the returned \<open>bool\<close> and the buffer as the call leaves it.
\<close>

definition receiveData ::
  "client \<Rightarrow> 8 word list option \<Rightarrow> nat \<Rightarrow> world \<Rightarrow> (abort + bool \<times> 8 word list option) \<times> world" where
  "receiveData c buffer len w =
     (case buffer of
        None \<Rightarrow> (Inr (False, None), w)
      | Some buf \<Rightarrow>
          if len = 0 then (Inr (False, Some buf), w)
          else
            (case millis w of
               (Inl e, w1) \<Rightarrow> (Inl e, w1)
             | (Inr lastByteTime, w1) \<Rightarrow>
                 (let charTimeout = (interCharTimeout c * of_nat len) div 1000 in
                  case recv_loop c len charTimeout (buf, 0, lastByteTime) w1 of
                    (Inl e, w2) \<Rightarrow> (Inl e, w2)
                  | (Inr (ex, buf', bytesRead), w2) \<Rightarrow>
                      (Inr (bytesRead = len, Some buf'), w2))))"

section \<open>Response validator\<close>

text \<open>An element access \<open>p[i]\<close> through a pointer handed in by the caller.\<close>

definition deref :: "'a list option \<Rightarrow> nat \<Rightarrow> abort + 'a" where
  "deref p i =
     (case p of
        None \<Rightarrow> Inl NullDeref
      | Some xs \<Rightarrow> if i < length xs then Inr (xs ! i) else Inl OutOfBounds)"

text \<open>
  \<open>HS321::validateModbusResponse\<close> (HS321.cpp, lines 370-424). \<open>responseSize - 2\<close> is a
  \<open>size_t\<close> passed to the \<open>uint8_t length\<close> parameter of \<open>calculateCRC\<close>: the
  conversion keeps the low eight bits.
\<close>

definition validateModbusResponse ::
  "8 word list option \<Rightarrow> nat \<Rightarrow> 8 word \<Rightarrow> 8 word \<Rightarrow> abort + bool" where
  "validateModbusResponse response responseSize expectedAddress expectedFunction =
     (if responseSize < 4 then Inr False
      else
        (case deref response 0 of
           Inl e \<Rightarrow> Inl e
         | Inr r0 \<Rightarrow>
             if r0 \<noteq> expectedAddress then Inr False
             else
               (case deref response 1 of
                  Inl e \<Rightarrow> Inl e
                | Inr r1 \<Rightarrow>
                    if r1 = (expectedFunction OR 0x80) then Inr False
                    else if r1 \<noteq> expectedFunction then Inr False
                    else
                      (case calculateCRC response (of_nat (responseSize - 2)) of
                         Inl e \<Rightarrow> Inl e
                       | Inr calculatedCRC \<Rightarrow>
                           (case deref response (responseSize - 1) of
                              Inl e \<Rightarrow> Inl e
                            | Inr hi \<Rightarrow>
                                (case deref response (responseSize - 2) of
                                   Inl e \<Rightarrow> Inl e
                                 | Inr lo \<Rightarrow>
                                     (let receivedCRC = push_bit 8 (ucast hi) OR ucast lo in
                                      if calculatedCRC \<noteq> receivedCRC then Inr False
                                      else Inr True)))))))"

section \<open>Transaction orchestrator: read\<close>

text \<open>
  \<open>HS321::readParameters\<close> (HS321.cpp, lines 94-231). The local arrays \<open>request\<close> and
  \<open>response\<close> start with indeterminate cells, written here as zeros; every cell is
  assigned before it is read (the request before it is sent, the response because
  \<open>receiveData\<close> returns true only after storing all \<open>responseSize\<close> bytes). They have
  exactly the declared number of cells, so their accesses are written with \<open>!\<close>.

  Lines 111-117: the request without its CRC.
\<close>

definition read_request :: "8 word \<Rightarrow> 16 word \<Rightarrow> nat \<Rightarrow> 8 word list" where
  "read_request slaveAddr startAddress numberRegisters =
     (replicate 8 0)
       [0 := slaveAddr,
        1 := READ,
        2 := ucast (drop_bit 8 startAddress),
        3 := ucast (startAddress AND 0xFF),
        4 := of_nat (drop_bit 8 numberRegisters),
        5 := of_nat (numberRegisters AND 0xFF)]"

text \<open>
  Lines 213-216:
  \<^verbatim>\<open>for (size_t i = 0; i < numberRegisters; i++) {
      const size_t dataIndex = 3 + (i * 2);
      arrayValues[i] = (static_cast<uint16_t>(response[dataIndex]) << 8) | response[dataIndex + 1]; }\<close>
  \<open>arrayValues\<close> is the caller's array: a store beyond its cells is \<open>OutOfBounds\<close>.
\<close>

function store_values :: "8 word list \<Rightarrow> nat \<Rightarrow> nat \<Rightarrow> 16 word list \<Rightarrow> abort + 16 word list" where
  "store_values response numberRegisters i arr =
     (if i < numberRegisters then
        (let dataIndex = 3 + i * 2 in
         if i < length arr
         then store_values response numberRegisters (i + 1)
                (arr[i := push_bit 8 (ucast (response ! dataIndex)) OR ucast (response ! (dataIndex + 1))])
         else Inl OutOfBounds)
      else Inr arr)"
  by pat_completeness auto
termination
  by (relation "measure (\<lambda>(response, numberRegisters, i, arr). numberRegisters - i)") auto

text \<open>Lines 164-230: the checks on a completely received response, then the decoding.\<close>

definition decode_response ::
  "8 word \<Rightarrow> 16 word list option \<Rightarrow> nat \<Rightarrow> 8 word list \<Rightarrow> abort + bool \<times> 16 word list option" where
  "decode_response slaveAddr arrayValues numberRegisters response =
     (let responseSize = 5 + numberRegisters * 2 in
      if response ! 0 \<noteq> slaveAddr \<or> response ! 1 \<noteq> READ then Inr (False, arrayValues)
      else
        (let byteCount = response ! 2 in
         if unat byteCount \<noteq> numberRegisters * 2 then Inr (False, arrayValues)
         else
           (let receivedCRC = push_bit 8 (ucast (response ! (responseSize - 1)))
                                OR ucast (response ! (responseSize - 2)) :: 16 word in
            case calculateCRC (Some response) (of_nat (responseSize - 2)) of
              Inl e \<Rightarrow> Inl e
            | Inr calculatedCRC \<Rightarrow>
                if receivedCRC \<noteq> calculatedCRC then Inr (False, arrayValues)
                else
                  (case arrayValues of
                     None \<Rightarrow> Inl NullDeref
                   | Some arr \<Rightarrow>
                       if numberRegisters = 1 then
                         (if 0 < length arr
                          then Inr (True, Some (arr[0 := push_bit 8 (ucast (response ! 3)) OR ucast (response ! 4)]))
                          else Inl OutOfBounds)
                       else
                         (case store_values response numberRegisters 0 arr of
                            Inl e \<Rightarrow> Inl e
                          | Inr arr' \<Rightarrow> Inr (True, Some arr'))))))"

definition readParameters ::
  "client \<Rightarrow> 8 word \<Rightarrow> 16 word \<Rightarrow> 16 word list option \<Rightarrow> nat \<Rightarrow> world \<Rightarrow>
     (abort + bool \<times> 16 word list option) \<times> world" where
  "readParameters c slaveAddr startAddress arrayValues numberRegisters w =
     (if arrayValues = None \<or> numberRegisters = 0 then (Inr (False, arrayValues), w)
      else if numberRegisters > 125 then (Inr (False, arrayValues), w)
      else
        (let request = read_request slaveAddr startAddress numberRegisters in
         case calculateCRC (Some request) 6 of
           Inl e \<Rightarrow> (Inl e, w)
         | Inr crc \<Rightarrow>
             (let request' = request[6 := ucast (crc AND 0xFF), 7 := ucast (drop_bit 8 crc AND 0xFF)] in
              case sendData c (Some request') 8 w of
                (Inl e, w1) \<Rightarrow> (Inl e, w1)
              | (Inr u, w1) \<Rightarrow>
                  (let responseSize = 5 + numberRegisters * 2 in
                   case receiveData c (Some (replicate responseSize 0)) responseSize w1 of
                     (Inl e, w2) \<Rightarrow> (Inl e, w2)
                   | (Inr (ok, None), w2) \<Rightarrow> (Inl NullDeref, w2)
                   | (Inr (ok, Some response), w2) \<Rightarrow>
                       if \<not> ok then (Inr (False, arrayValues), w2)
                       else (decode_response slaveAddr arrayValues numberRegisters response, w2)))))"

section \<open>Transaction orchestrator: write\<close>

text \<open>
  \<open>HS321::writeParameters\<close> (HS321.cpp, lines 245-353). The two limits declared in its
  body:
  \<^verbatim>\<open>constexpr size_t MAX_MODBUS_REGISTERS = 123;
  constexpr size_t MAX_REQUEST_SIZE = 7 + (MAX_MODBUS_REGISTERS * 2);\<close>
\<close>

definition MAX_MODBUS_REGISTERS :: nat where
  "MAX_MODBUS_REGISTERS = 123"

definition MAX_REQUEST_SIZE :: nat where
  "MAX_REQUEST_SIZE = 7 + MAX_MODBUS_REGISTERS * 2"

text \<open>
  Lines 303-306:
  \<^verbatim>\<open>for (size_t i = 0; i < numberRegisters; i++) {
      request[7 + (i * 2)] = static_cast<uint8_t>(arrayValues[i] >> 8);
      request[8 + (i * 2)] = static_cast<uint8_t>(arrayValues[i] & 0xFF); }\<close>
\<close>

function fill_values :: "16 word list option \<Rightarrow> nat \<Rightarrow> nat \<Rightarrow> 8 word list \<Rightarrow> abort + 8 word list" where
  "fill_values arrayValues numberRegisters i request =
     (if i < numberRegisters then
        (case deref arrayValues i of
           Inl e \<Rightarrow> Inl e
         | Inr v \<Rightarrow>
             fill_values arrayValues numberRegisters (i + 1)
               (request[7 + i * 2 := ucast (drop_bit 8 v), 8 + i * 2 := ucast (v AND 0xFF)]))
      else Inr request)"
  by pat_completeness auto
termination
  by (relation "measure (\<lambda>(arrayValues, numberRegisters, i, request). numberRegisters - i)") auto

text \<open>Lines 284-307: the request without its CRC, in a local array of \<open>requestSize\<close> cells.\<close>

definition write_request ::
  "8 word \<Rightarrow> 16 word \<Rightarrow> 16 word list option \<Rightarrow> nat \<Rightarrow> nat \<Rightarrow> abort + 8 word list" where
  "write_request slaveAddr startAddress arrayValues numberRegisters requestSize =
     (let request = (replicate requestSize 0)[0 := slaveAddr] in
      if numberRegisters = 1 then
        (case deref arrayValues 0 of
           Inl e \<Rightarrow> Inl e
         | Inr v \<Rightarrow>
             Inr (request
                    [1 := WRITE_ONE,
                     2 := ucast (drop_bit 8 startAddress),
                     3 := ucast (startAddress AND 0xFF),
                     4 := ucast (drop_bit 8 v),
                     5 := ucast (v AND 0xFF)]))
      else if numberRegisters > 1 then
        fill_values arrayValues numberRegisters 0
          (request
             [1 := WRITE_RANGE,
              2 := ucast (drop_bit 8 startAddress),
              3 := ucast (startAddress AND 0xFF),
              4 := of_nat (drop_bit 8 numberRegisters),
              5 := of_nat (numberRegisters AND 0xFF),
              6 := of_nat (numberRegisters * 2)])
      else Inr request)"

definition writeParameters ::
  "client \<Rightarrow> 8 word \<Rightarrow> 16 word \<Rightarrow> 16 word list option \<Rightarrow> nat \<Rightarrow> world \<Rightarrow> (abort + bool) \<times> world" where
  "writeParameters c slaveAddr startAddress arrayValues numberRegisters w =
     (if arrayValues = None \<or> numberRegisters = 0 then (Inr False, w)
      else if numberRegisters > MAX_MODBUS_REGISTERS then (Inr False, w)
      else
        (let requestSize = (if numberRegisters = 1 then 8 else 9 + numberRegisters * 2) in
         if requestSize > MAX_REQUEST_SIZE then (Inr False, w)
         else
           (case write_request slaveAddr startAddress arrayValues numberRegisters requestSize of
              Inl e \<Rightarrow> (Inl e, w)
            | Inr request \<Rightarrow>
                (case calculateCRC (Some request) (of_nat (requestSize - 2)) of
                   Inl e \<Rightarrow> (Inl e, w)
                 | Inr crc \<Rightarrow>
                     (let request' = request[requestSize - 2 := ucast (crc AND 0xFF),
                                             requestSize - 1 := ucast (drop_bit 8 crc AND 0xFF)] in
                      case sendData c (Some request') requestSize w of
                        (Inl e, w1) \<Rightarrow> (Inl e, w1)
                      | (Inr u, w1) \<Rightarrow>
                          (case receiveData c (Some (replicate 8 0)) 8 w1 of
                             (Inl e, w2) \<Rightarrow> (Inl e, w2)
                           | (Inr (ok, response), w2) \<Rightarrow>
                               if \<not> ok then (Inr False, w2)
                               else (validateModbusResponse response 8 slaveAddr (request' ! 1), w2)))))))"

section \<open>Exposed operations\<close>

text \<open>\<open>enum GroupsParameter : uint16_t\<close> (HS321.h, lines 69-86) and its values.\<close>

datatype GroupsParameter =
    GROUP_F0 | GROUP_F1 | GROUP_F2 | GROUP_F3 | GROUP_F4 | GROUP_F5 | GROUP_F6 | GROUP_F7
  | GROUP_F8 | GROUP_F9 | GROUP_FA | GROUP_FB | GROUP_FC | GROUP_FP | GROUP_d | GROUP_COUNT

fun group_value :: "GroupsParameter \<Rightarrow> 16 word" where
  "group_value GROUP_F0 = 0"
| "group_value GROUP_F1 = 1"
| "group_value GROUP_F2 = 2"
| "group_value GROUP_F3 = 3"
| "group_value GROUP_F4 = 4"
| "group_value GROUP_F5 = 5"
| "group_value GROUP_F6 = 6"
| "group_value GROUP_F7 = 7"
| "group_value GROUP_F8 = 8"
| "group_value GROUP_F9 = 9"
| "group_value GROUP_FA = 10"
| "group_value GROUP_FB = 11"
| "group_value GROUP_FC = 12"
| "group_value GROUP_FP = 13"
| "group_value GROUP_d = 112"
| "group_value GROUP_COUNT = 112 - 97"

text \<open>\<open>enum ControlCommand : uint16_t\<close> (HS321.h, lines 94-102).\<close>

datatype ControlCommand =
    FORWARD_RUN_COMMAND | REVERSE_RUN_COMMAND | FORWARD_RUN_JOG_COMMAND | REVERSE_RUN_JOG_COMMAND
  | FREE_STOP_COMMAND | DECELERATE_STOP_COMMAND | FAULT_RESET_COMMAND

fun command_value :: "ControlCommand \<Rightarrow> 16 word" where
  "command_value FORWARD_RUN_COMMAND = 0"
| "command_value REVERSE_RUN_COMMAND = 1"
| "command_value FORWARD_RUN_JOG_COMMAND = 2"
| "command_value REVERSE_RUN_JOG_COMMAND = 3"
| "command_value FREE_STOP_COMMAND = 4"
| "command_value DECELERATE_STOP_COMMAND = 5"
| "command_value FAULT_RESET_COMMAND = 6"

text \<open>\<open>buildParameterAddress\<close> (HS321.h, lines 285-287).\<close>

definition buildParameterAddress :: "GroupsParameter \<Rightarrow> 8 word \<Rightarrow> 16 word" where
  "buildParameterAddress grp subAddress = push_bit 8 (group_value grp) OR ucast subAddress"

text \<open>
  The wrappers of HS321.cpp, lines 607-744. A \<open>uint16_t*\<close> naming one variable is an
  array of one cell; \<open>&value\<close> in \<open>writeSingleParameter\<close> is \<open>Some [value]\<close>.
\<close>

definition readSingleParameter ::
  "client \<Rightarrow> 16 word \<Rightarrow> 16 word list option \<Rightarrow> world \<Rightarrow> (abort + bool \<times> 16 word list option) \<times> world" where
  "readSingleParameter c address val w = readParameters c (slaveAddress c) address val 1 w"

definition writeSingleParameter :: "client \<Rightarrow> 16 word \<Rightarrow> 16 word \<Rightarrow> world \<Rightarrow> (abort + bool) \<times> world" where
  "writeSingleParameter c address val w = writeParameters c (slaveAddress c) address (Some [val]) 1 w"

definition readFaultDescription ::
  "client \<Rightarrow> 16 word list option \<Rightarrow> world \<Rightarrow> (abort + bool \<times> 16 word list option) \<times> world" where
  "readFaultDescription c faultCode w =
     (if \<not> isInitialized c \<or> faultCode = None then (Inr (False, faultCode), w)
      else readSingleParameter c 0x8000 faultCode w)"

definition readRunningState ::
  "client \<Rightarrow> 16 word list option \<Rightarrow> world \<Rightarrow> (abort + bool \<times> 16 word list option) \<times> world" where
  "readRunningState c state w =
     (if \<not> isInitialized c \<or> state = None then (Inr (False, state), w)
      else readParameters c (slaveAddress c) 0x3000 state 1 w)"

definition writeControlCommand :: "client \<Rightarrow> ControlCommand \<Rightarrow> world \<Rightarrow> (abort + bool) \<times> world" where
  "writeControlCommand c command w =
     (if \<not> isInitialized c then (Inr False, w)
      else writeSingleParameter c 0x2000 (command_value command) w)"

definition readParametersInGroups ::
  "client \<Rightarrow> GroupsParameter \<Rightarrow> 8 word \<Rightarrow> 16 word list option \<Rightarrow> nat \<Rightarrow> world \<Rightarrow>
     (abort + bool \<times> 16 word list option) \<times> world" where
  "readParametersInGroups c grp numberGroup arrayValues count w =
     (if \<not> isInitialized c \<or> arrayValues = None \<or> count = 0 then (Inr (False, arrayValues), w)
      else
        (let startAddress = buildParameterAddress grp numberGroup in
         readParameters c (slaveAddress c) startAddress arrayValues count w))"

definition readSingleGroupParameter ::
  "client \<Rightarrow> GroupsParameter \<Rightarrow> 8 word \<Rightarrow> 16 word list option \<Rightarrow> world \<Rightarrow>
     (abort + bool \<times> 16 word list option) \<times> world" where
  "readSingleGroupParameter c grp numberGroup val w =
     (if \<not> isInitialized c \<or> val = None then (Inr (False, val), w)
      else
        (let address = buildParameterAddress grp numberGroup in
         readSingleParameter c address val w))"

definition writeParametersInGroups ::
  "client \<Rightarrow> GroupsParameter \<Rightarrow> 8 word \<Rightarrow> 16 word list option \<Rightarrow> nat \<Rightarrow> world \<Rightarrow> (abort + bool) \<times> world" where
  "writeParametersInGroups c grp numberGroup arrayData dataCount w =
     (if \<not> isInitialized c \<or> arrayData = None \<or> dataCount = 0 then (Inr False, w)
      else
        (let startAddress = buildParameterAddress grp numberGroup in
         writeParameters c (slaveAddress c) startAddress arrayData dataCount w))"

definition writeSingleGroupParameter ::
  "client \<Rightarrow> GroupsParameter \<Rightarrow> 8 word \<Rightarrow> 16 word \<Rightarrow> world \<Rightarrow> (abort + bool) \<times> world" where
  "writeSingleGroupParameter c grp numberGroup val w =
     (if \<not> isInitialized c then (Inr False, w)
      else
        (let address = buildParameterAddress grp numberGroup in
         writeSingleParameter c address val w))"

section \<open>The validator as the specification words it\<close>

text \<open>
  Section 4.5 of the specification: a response is accepted when it has at least four
  bytes, its first byte is the expected address, its second byte is not the expected
  function with the high bit set and is the expected function, and the CRC16 over all
  bytes but the last two equals the CRC stored in the last two bytes, low byte first.
\<close>

definition spec_response_valid :: "8 word list \<Rightarrow> nat \<Rightarrow> 8 word \<Rightarrow> 8 word \<Rightarrow> bool" where
  "spec_response_valid resp responseSize expectedAddress expectedFunction =
     (4 \<le> responseSize
      \<and> resp ! 0 = expectedAddress
      \<and> resp ! 1 \<noteq> (expectedFunction OR 0x80)
      \<and> resp ! 1 = expectedFunction
      \<and> spec_crc16 (take (responseSize - 2) resp)
          = push_bit 8 (ucast (resp ! (responseSize - 1))) OR ucast (resp ! (responseSize - 2)))"

section \<open>The frames as the specification words them\<close>

text \<open>
  Sections 3, 4.3 and 6 of the specification: a frame is its body followed by the CRC16
  of the body, low byte first; 16-bit fields go high byte first.
\<close>

definition hi_byte :: "16 word \<Rightarrow> 8 word" where
  "hi_byte v = ucast (drop_bit 8 v)"

definition lo_byte :: "16 word \<Rightarrow> 8 word" where
  "lo_byte v = ucast v"

definition spec_frame :: "8 word list \<Rightarrow> 8 word list" where
  "spec_frame body = body @ [lo_byte (spec_crc16 body), hi_byte (spec_crc16 body)]"

definition big_endian :: "16 word list \<Rightarrow> 8 word list" where
  "big_endian vals = concat (map (\<lambda>v. [hi_byte v, lo_byte v]) vals)"

text \<open>\<open>[addr][0x03][startHi][startLo][countHi][countLo][crcLo][crcHi]\<close>\<close>

definition spec_read_request :: "8 word \<Rightarrow> 16 word \<Rightarrow> nat \<Rightarrow> 8 word list" where
  "spec_read_request addr start n =
     spec_frame [addr, 0x03, hi_byte start, lo_byte start, of_nat (n div 256), of_nat (n mod 256)]"

text \<open>\<open>[addr][0x03][byteCount][data, two bytes per register][crcLo][crcHi]\<close>\<close>

definition spec_read_response :: "8 word \<Rightarrow> 16 word list \<Rightarrow> 8 word list" where
  "spec_read_response addr vals =
     spec_frame ([addr, 0x03, of_nat (length vals * 2)] @ big_endian vals)"

text \<open>\<open>[addr][0x06][addrHi][addrLo][valHi][valLo][crcLo][crcHi]\<close>\<close>

definition spec_write_single :: "8 word \<Rightarrow> 16 word \<Rightarrow> 16 word \<Rightarrow> 8 word list" where
  "spec_write_single addr start v =
     spec_frame [addr, 0x06, hi_byte start, lo_byte start, hi_byte v, lo_byte v]"

text \<open>\<open>[addr][0x10][startHi][startLo][countHi][countLo][byteCount][values...][crcLo][crcHi]\<close>\<close>

definition spec_write_multiple :: "8 word \<Rightarrow> 16 word \<Rightarrow> 16 word list \<Rightarrow> 8 word list" where
  "spec_write_multiple addr start vals =
     spec_frame
       ([addr, 0x10, hi_byte start, lo_byte start,
         of_nat (length vals div 256), of_nat (length vals mod 256), of_nat (length vals * 2)]
        @ big_endian vals)"

section \<open>Concrete environments for the examples\<close>

text \<open>
  A world in which nothing has been called yet, every pin is high, and the
  environment has no answers to give.
\<close>

definition silent_world :: world where
  "silent_world =
     \<lparr>calls = [], pin_level = (\<lambda>p. HIGH), millis_in = [], available_in = [], read_in = []\<rparr>"

text \<open>
  A client as \<open>begin\<close> leaves it at 9600 baud: slave address 1, serial port 0, no debug
  port, direction pin 2.
\<close>

definition ready_client :: client where
  "ready_client =
     \<lparr>initialized = True, slaveAddress = 1, serialPort = Some 0, serialDebug = None,
      baud = 9600, transmitterModeContact = 2, totalTimeout = 2000, interCharTimeout = 3645\<rparr>"

text \<open>
  The slave sends two bytes and falls silent; the clock reads 0, 0, 1, 2, 10 and then
  2500 milliseconds.
\<close>

definition stalling_world :: world where
  "stalling_world =
     \<lparr>calls = [], pin_level = (\<lambda>p. LOW), millis_in = [0, 0, 1, 2, 10, 2500],
      available_in = [2, 1, 0, 0], read_in = [0x01, 0x03]\<rparr>"

text \<open>
  The slave answers a read of one register with \<open>01 03 02 00 64 B9 AF\<close> (the value
  100), all seven bytes being available at once; the clock stands at 0.
\<close>

definition answering_world :: world where
  "answering_world =
     \<lparr>calls = [], pin_level = (\<lambda>p. LOW), millis_in = [0, 0, 0, 0, 0, 0, 0, 0, 0],
      available_in = [7, 6, 5, 4, 3, 2, 1, 0], read_in = [0x01, 0x03, 0x02, 0x00, 0x64, 0xB9, 0xAF]\<rparr>"

text \<open>
  As \<open>answering_world\<close>, but the last byte of the answer arrives as \<open>AE\<close>: the CRC
  does not match.
\<close>

definition garbled_world :: world where
  "garbled_world =
     \<lparr>calls = [], pin_level = (\<lambda>p. LOW), millis_in = [0, 0, 0, 0, 0, 0, 0, 0, 0],
      available_in = [7, 6, 5, 4, 3, 2, 1, 0], read_in = [0x01, 0x03, 0x02, 0x00, 0x64, 0xB9, 0xAE]\<rparr>"

section \<open>Properties of the CRC16 engine\<close>

declare crc_bit_loop.simps [simp del] crc_byte_loop.simps [simp del]

lemma crc_shift_spec: "crc_shift c = spec_crc_round c"
  by (simp add: crc_shift_def spec_crc_round_def and_one_eq mod_2_eq_odd word_eq_iff_unsigned [where ?'a = nat] bit_0)

lemma crc_bit_loop_funpow: "j \<le> 8 \<Longrightarrow> crc_bit_loop j c = (crc_shift ^^ (8 - j)) c"
proof (induction j c rule: crc_bit_loop.induct)
  case (1 j crc)
  show ?case
  proof (cases "j < 8")
    case True
    then have "8 - j = Suc (8 - (j + 1))" by simp
    with True 1 show ?thesis
      by (subst crc_bit_loop.simps) (simp add: funpow_swap1)
  next
    case False
    with 1 show ?thesis by (subst crc_bit_loop.simps) simp
  qed
qed

lemma crc_bit_loop_spec: "crc_bit_loop 0 c = (spec_crc_round ^^ 8) c"
proof -
  have "crc_shift = spec_crc_round" by (rule ext) (rule crc_shift_spec)
  then show ?thesis by (simp add: crc_bit_loop_funpow)
qed

lemma crc_byte_loop_foldl:
  "unat len \<le> length ds \<Longrightarrow> i \<le> unat len \<Longrightarrow>
   crc_byte_loop ds len i crc =
     Inr (foldl (\<lambda>c b. (spec_crc_round ^^ 8) (c XOR ucast b)) crc (take (unat len - i) (drop i ds)))"
proof (induction ds len i crc rule: crc_byte_loop.induct)
  case (1 data len i crc)
  show ?case
  proof (cases "i < unat len")
    case True
    with 1 have il: "i < length data" by simp
    have "take (unat len - i) (drop i data) = data ! i # take (unat len - (i + 1)) (drop (i + 1) data)"
      using True il
      by (metis Cons_nth_drop_Suc Suc_diff_Suc Suc_eq_plus1 diff_Suc_eq_diff_pred take_Suc_Cons diff_diff_left)
    with True il 1 show ?thesis
      by (subst crc_byte_loop.simps) (simp add: crc_bit_loop_spec)
  next
    case False
    with 1 show ?thesis by (subst crc_byte_loop.simps) simp
  qed
qed

lemma calculateCRC_spec:
  "len \<noteq> 0 \<Longrightarrow> unat len \<le> length ds \<Longrightarrow>
   calculateCRC (Some ds) len = Inr (spec_crc16 (take (unat len) ds))"
  by (simp add: calculateCRC_def spec_crc16_def crc_byte_loop_foldl)

lemma funpow_eight: "(f ^^ 8) x = f (f (f (f (f (f (f (f x)))))))"
  by (simp add: eval_nat_numeral)

text \<open>
  Claim C2. For every non-empty byte sequence handed to \<open>calculateCRC\<close> (the first
  \<open>length\<close> cells of \<open>data\<close>, \<open>length\<close> a non-zero \<open>uint8_t\<close>), the result is the
  standard Modbus CRC16 as the specification describes it: seed \<open>0xFFFF\<close>, each byte
  XORed into the running value and followed by eight rounds of "shift right, XOR
  \<open>0xA001\<close> when the low bit was set". For a null pointer or a zero length the result is
  the sentinel \<open>0xFFFF\<close>. The result is a function of the arguments alone: the model
  takes no \<open>world\<close> and returns none.
\<close>

theorem calculateCRC_modbus_crc16:
  "(len \<noteq> 0 \<and> unat len \<le> length ds \<longrightarrow>
      calculateCRC (Some ds) len = Inr (spec_crc16 (take (unat len) ds)))
   \<and> calculateCRC None len = Inr 0xFFFF
   \<and> calculateCRC data 0 = Inr 0xFFFF"
  by (simp add: calculateCRC_spec) (simp add: calculateCRC_def split: option.split)

theorem calculateCRC_modbus_crc16_witness:
  "(5 :: 8 word) \<noteq> 0 \<and> unat (5 :: 8 word) \<le> length [1, 3, 2, 0, 0x64 :: 8 word]
   \<and> calculateCRC (Some [1, 3, 2, 0, 0x64]) 5 = Inr 0xAFB9
   \<and> spec_crc16 [1, 3, 2, 0, 0x64] = 0xAFB9"
  using calculateCRC_modbus_crc16 [of 5 "[1, 3, 2, 0, 0x64]"]
  by (simp add: spec_crc16_def spec_crc_round_def funpow_eight)

section \<open>Properties of the response validator\<close>

lemma unat_of_nat_small: "n < 256 \<Longrightarrow> unat (of_nat n :: 8 word) = n"
  by (simp add: unat_of_nat)

lemma of_nat_small_nonzero: "0 < n \<Longrightarrow> n < 256 \<Longrightarrow> (of_nat n :: 8 word) \<noteq> 0"
  by (metis unat_of_nat_small unat_0 less_numeral_extra(3))

lemma calculateCRC_of_nat:
  "0 < m \<Longrightarrow> m < 256 \<Longrightarrow> m \<le> length ds \<Longrightarrow>
   calculateCRC (Some ds) (of_nat m) = Inr (spec_crc16 (take m ds))"
  using calculateCRC_spec[of "of_nat m" ds]
  by (simp only: unat_of_nat_small of_nat_small_nonzero not_False_eq_True)

lemma spec_crc16_append:
  "spec_crc16 (xs @ ys) = foldl (\<lambda>c b. (spec_crc_round ^^ 8) (c XOR ucast b)) (spec_crc16 xs) ys"
  by (simp add: spec_crc16_def)

lemma crc_zero_stays:
  "foldl (\<lambda>c b. (spec_crc_round ^^ 8) (c XOR ucast b)) 0 (replicate n (0 :: 8 word)) = (0 :: 16 word)"
  by (induction n) (simp_all add: funpow_eight spec_crc_round_def)

lemma crc_of_frame_with_own_crc: "spec_crc16 [1, 3, 0x40, 0x21] = 0"
  by (simp add: spec_crc16_def spec_crc_round_def funpow_eight)

text \<open>
  Claim C4, as amended. For a response of at most 257 bytes (all of them inside the
  buffer), \<open>validateModbusResponse\<close> returns true if and only if the length is at least
  4, the first byte is the expected address, the second byte is not the expected
  function with its high bit set and equals the expected function, and the CRC16 over
  all bytes but the last two equals the CRC stored low byte first in the last two.
\<close>

theorem validateModbusResponse_iff_spec:
  assumes "responseSize \<le> 257" and "responseSize \<le> length resp"
  shows "validateModbusResponse (Some resp) responseSize expectedAddress expectedFunction =
           Inr (spec_response_valid resp responseSize expectedAddress expectedFunction)"
proof (cases "responseSize < 4")
  case True
  then show ?thesis by (simp add: validateModbusResponse_def spec_response_valid_def)
next
  case False
  define m where "m = responseSize - 2"
  have sz: "0 < m" "m < 256" "m \<le> length resp" using False assms by (auto simp: m_def)
  have crc: "calculateCRC (Some resp) (of_nat m) = Inr (spec_crc16 (take m resp))"
    using sz by (rule calculateCRC_of_nat)
  show ?thesis
    using False assms crc
    unfolding m_def[symmetric] validateModbusResponse_def spec_response_valid_def deref_def Let_def
    by (auto simp: m_def simp del: of_nat_diff)
qed

theorem validateModbusResponse_iff_spec_witness:
  "(8 :: nat) \<le> 257 \<and> 8 \<le> length [1, 6, 0x20, 0, 0, 5, 0x42, 0x09 :: 8 word]
   \<and> spec_response_valid [1, 6, 0x20, 0, 0, 5, 0x42, 0x09] 8 1 6
   \<and> validateModbusResponse (Some [1, 6, 0x20, 0, 0, 5, 0x42, 0x09]) 8 1 6 = Inr True"
  using validateModbusResponse_iff_spec [of 8 "[1, 6, 0x20, 0, 0, 5, 0x42, 0x09]" 1 6]
  by (simp add: spec_response_valid_def spec_crc16_def spec_crc_round_def funpow_eight)

text \<open>
  The claim as stated fails on a response of 258 bytes: \<open>responseSize - 2 = 256\<close> is
  passed to the \<open>uint8_t length\<close> of \<open>calculateCRC\<close> as 0, the sentinel \<open>0xFFFF\<close> comes
  back, and a frame ending in \<open>FF FF\<close> is accepted although the CRC16 of its first 256
  bytes is 0.
\<close>

theorem validateModbusResponse_long_frame_counterexample:
  "validateModbusResponse (Some ([1, 3, 0x40, 0x21] @ replicate 252 0 @ [0xFF, 0xFF])) 258 1 3 = Inr True
   \<and> \<not> spec_response_valid ([1, 3, 0x40, 0x21] @ replicate 252 0 @ [0xFF, 0xFF]) 258 1 3"
proof -
  have "spec_crc16 ([1, 3, 0x40, 0x21] @ replicate 252 0) = 0"
    by (simp only: spec_crc16_append crc_of_frame_with_own_crc crc_zero_stays)
  then show ?thesis
    by (simp add: validateModbusResponse_def spec_response_valid_def deref_def calculateCRC_def nth_append)
qed

section \<open>Induction over the two receive loops\<close>

text \<open>
  One rule per loop, with a case for every way an iteration can end: an abnormal stop
  at one of the input calls, a normal exit, or another iteration. The property \<open>P\<close>
  relates the loop state and world at the start of an iteration to the outcome and
  world of the whole remaining run.
\<close>

declare drain.simps [simp del] recv_loop.simps [simp del]

lemma drain_outcome_induct [case_names no_answer stop read_fails out_of_bounds clock_fails step]:
  assumes no_answer: "\<And>buffer bytesRead lastByteTime w e w1.
      serial_available sp w = (Inl e, w1) \<Longrightarrow> P (buffer, bytesRead, lastByteTime) w (Inl e) w1"
    and stop: "\<And>buffer bytesRead lastByteTime w a w1.
      serial_available sp w = (Inr a, w1) \<Longrightarrow> \<not> (a > 0 \<and> bytesRead < len) \<Longrightarrow>
      P (buffer, bytesRead, lastByteTime) w (Inr (buffer, bytesRead, lastByteTime)) w1"
    and read_fails: "\<And>buffer bytesRead lastByteTime w a w1 e w2.
      serial_available sp w = (Inr a, w1) \<Longrightarrow> a > 0 \<Longrightarrow> bytesRead < len \<Longrightarrow>
      serial_read sp w1 = (Inl e, w2) \<Longrightarrow> P (buffer, bytesRead, lastByteTime) w (Inl e) w2"
    and out_of_bounds: "\<And>buffer bytesRead lastByteTime w a w1 b w2.
      serial_available sp w = (Inr a, w1) \<Longrightarrow> a > 0 \<Longrightarrow> bytesRead < len \<Longrightarrow>
      serial_read sp w1 = (Inr b, w2) \<Longrightarrow> \<not> bytesRead < length buffer \<Longrightarrow>
      P (buffer, bytesRead, lastByteTime) w (Inl OutOfBounds) w2"
    and clock_fails: "\<And>buffer bytesRead lastByteTime w a w1 b w2 e w3.
      serial_available sp w = (Inr a, w1) \<Longrightarrow> a > 0 \<Longrightarrow> bytesRead < len \<Longrightarrow>
      serial_read sp w1 = (Inr b, w2) \<Longrightarrow> bytesRead < length buffer \<Longrightarrow>
      millis w2 = (Inl e, w3) \<Longrightarrow> P (buffer, bytesRead, lastByteTime) w (Inl e) w3"
    and step: "\<And>buffer bytesRead lastByteTime w a w1 b w2 t w3 r w'.
      serial_available sp w = (Inr a, w1) \<Longrightarrow> a > 0 \<Longrightarrow> bytesRead < len \<Longrightarrow>
      serial_read sp w1 = (Inr b, w2) \<Longrightarrow> bytesRead < length buffer \<Longrightarrow>
      millis w2 = (Inr t, w3) \<Longrightarrow>
      drain sp len (buffer[bytesRead := of_int b], bytesRead + 1, t) w3 = (r, w') \<Longrightarrow>
      P (buffer[bytesRead := of_int b], bytesRead + 1, t) w3 r w' \<Longrightarrow>
      P (buffer, bytesRead, lastByteTime) w r w'"
  shows "P st w (fst (drain sp len st w)) (snd (drain sp len st w))"
  using assms
proof (induction sp len st w rule: drain.induct)
  case (1 sp len buffer bytesRead lastByteTime w)
  note rules = "1.prems"
  obtain r1 w1 where a: "serial_available sp w = (r1, w1)" by (cases "serial_available sp w")
  obtain r2 w2 where b: "serial_read sp w1 = (r2, w2)" by (cases "serial_read sp w1")
  obtain r3 w3 where m: "millis w2 = (r3, w3)" by (cases "millis w2")
  show ?case
  proof (cases r1)
    case (Inl e)
    then show ?thesis using a rules(1) by (subst (1 2) drain.simps) simp
  next
    case (Inr av)
    note r1 = this
    show ?thesis
    proof (cases "av > 0 \<and> bytesRead < len")
      case False
      then show ?thesis using a r1 rules(2)
        by (subst (1 2) drain.simps) auto
    next
      case True
      note go = this
      show ?thesis
      proof (cases r2)
        case (Inl e)
        then show ?thesis using a r1 go b rules(3)
          by (subst (1 2) drain.simps) simp
      next
        case (Inr byte)
        note r2 = this
        show ?thesis
        proof (cases "bytesRead < length buffer")
          case False
          then show ?thesis using a r1 go b r2 rules(4)
            by (subst (1 2) drain.simps) simp
        next
          case True
          note inb = this
          show ?thesis
          proof (cases r3)
            case (Inl e)
            then show ?thesis using a r1 go b r2 inb m rules(5)
              by (subst (1 2) drain.simps) simp
          next
            case (Inr t)
            have ih: "P (buffer[bytesRead := of_int byte], bytesRead + 1, t) w3
                        (fst (drain sp len (buffer[bytesRead := of_int byte], bytesRead + 1, t) w3))
                        (snd (drain sp len (buffer[bytesRead := of_int byte], bytesRead + 1, t) w3))"
              using "1.IH"[OF a[symmetric, unfolded r1] refl go b[symmetric, unfolded r2] refl inb
                  m[symmetric, unfolded Inr] refl rules] .
            have "P (buffer, bytesRead, lastByteTime) w
                        (fst (drain sp len (buffer[bytesRead := of_int byte], bytesRead + 1, t) w3))
                        (snd (drain sp len (buffer[bytesRead := of_int byte], bytesRead + 1, t) w3))"
              using rules(6)[OF a[unfolded r1] _ _ b[unfolded r2] inb m[unfolded Inr] _ ih] go by simp
            then show ?thesis using a r1 go b r2 inb m Inr
              by (subst (1 2) drain.simps) simp
          qed
        qed
      qed
    qed
  qed
qed


lemma recv_loop_outcome_induct
  [case_names complete clock_fails total_timeout drain_fails filled no_answer more_data
              clock_fails' interchar_timeout again]:
  assumes complete: "\<And>buffer bytesRead lastByteTime w.
      \<not> bytesRead < len \<Longrightarrow>
      P (buffer, bytesRead, lastByteTime) w (Inr (LoopCondition, buffer, bytesRead)) w"
    and clock_fails: "\<And>buffer bytesRead lastByteTime w e w1.
      bytesRead < len \<Longrightarrow> millis w = (Inl e, w1) \<Longrightarrow>
      P (buffer, bytesRead, lastByteTime) w (Inl e) w1"
    and total_timeout: "\<And>buffer bytesRead lastByteTime w now w1.
      bytesRead < len \<Longrightarrow> millis w = (Inr now, w1) \<Longrightarrow> now - lastByteTime > totalTimeout c \<Longrightarrow>
      P (buffer, bytesRead, lastByteTime) w (Inr (TotalTimeout, buffer, bytesRead)) w1"
    and drain_fails: "\<And>buffer bytesRead lastByteTime w now w1 e w2.
      bytesRead < len \<Longrightarrow> millis w = (Inr now, w1) \<Longrightarrow> \<not> now - lastByteTime > totalTimeout c \<Longrightarrow>
      drain (serialPort c) len (buffer, bytesRead, lastByteTime) w1 = (Inl e, w2) \<Longrightarrow>
      P (buffer, bytesRead, lastByteTime) w (Inl e) w2"
    and filled: "\<And>buffer bytesRead lastByteTime w now w1 buffer' bytesRead' lastByteTime' w2 r w'.
      bytesRead < len \<Longrightarrow> millis w = (Inr now, w1) \<Longrightarrow> \<not> now - lastByteTime > totalTimeout c \<Longrightarrow>
      drain (serialPort c) len (buffer, bytesRead, lastByteTime) w1
        = (Inr (buffer', bytesRead', lastByteTime'), w2) \<Longrightarrow>
      \<not> bytesRead' < len \<Longrightarrow>
      recv_loop c len charTimeout (buffer', bytesRead', lastByteTime') w2 = (r, w') \<Longrightarrow>
      P (buffer', bytesRead', lastByteTime') w2 r w' \<Longrightarrow>
      P (buffer, bytesRead, lastByteTime) w r w'"
    and no_answer: "\<And>buffer bytesRead lastByteTime w now w1 buffer' bytesRead' lastByteTime' w2 e w3.
      bytesRead < len \<Longrightarrow> millis w = (Inr now, w1) \<Longrightarrow> \<not> now - lastByteTime > totalTimeout c \<Longrightarrow>
      drain (serialPort c) len (buffer, bytesRead, lastByteTime) w1
        = (Inr (buffer', bytesRead', lastByteTime'), w2) \<Longrightarrow>
      bytesRead' < len \<Longrightarrow> serial_available (serialPort c) w2 = (Inl e, w3) \<Longrightarrow>
      P (buffer, bytesRead, lastByteTime) w (Inl e) w3"
    and more_data: "\<And>buffer bytesRead lastByteTime w now w1 buffer' bytesRead' lastByteTime' w2 a w3 r w'.
      bytesRead < len \<Longrightarrow> millis w = (Inr now, w1) \<Longrightarrow> \<not> now - lastByteTime > totalTimeout c \<Longrightarrow>
      drain (serialPort c) len (buffer, bytesRead, lastByteTime) w1
        = (Inr (buffer', bytesRead', lastByteTime'), w2) \<Longrightarrow>
      bytesRead' < len \<Longrightarrow> serial_available (serialPort c) w2 = (Inr a, w3) \<Longrightarrow> a \<noteq> 0 \<Longrightarrow>
      recv_loop c len charTimeout (buffer', bytesRead', lastByteTime') w3 = (r, w') \<Longrightarrow>
      P (buffer', bytesRead', lastByteTime') w3 r w' \<Longrightarrow>
      P (buffer, bytesRead, lastByteTime) w r w'"
    and clock_fails': "\<And>buffer bytesRead lastByteTime w now w1 buffer' bytesRead' lastByteTime' w2 a w3 e w4.
      bytesRead < len \<Longrightarrow> millis w = (Inr now, w1) \<Longrightarrow> \<not> now - lastByteTime > totalTimeout c \<Longrightarrow>
      drain (serialPort c) len (buffer, bytesRead, lastByteTime) w1
        = (Inr (buffer', bytesRead', lastByteTime'), w2) \<Longrightarrow>
      bytesRead' < len \<Longrightarrow> serial_available (serialPort c) w2 = (Inr a, w3) \<Longrightarrow> a = 0 \<Longrightarrow>
      millis w3 = (Inl e, w4) \<Longrightarrow>
      P (buffer, bytesRead, lastByteTime) w (Inl e) w4"
    and interchar_timeout:
      "\<And>buffer bytesRead lastByteTime w now w1 buffer' bytesRead' lastByteTime' w2 a w3 now' w4.
      bytesRead < len \<Longrightarrow> millis w = (Inr now, w1) \<Longrightarrow> \<not> now - lastByteTime > totalTimeout c \<Longrightarrow>
      drain (serialPort c) len (buffer, bytesRead, lastByteTime) w1
        = (Inr (buffer', bytesRead', lastByteTime'), w2) \<Longrightarrow>
      bytesRead' < len \<Longrightarrow> serial_available (serialPort c) w2 = (Inr a, w3) \<Longrightarrow> a = 0 \<Longrightarrow>
      millis w3 = (Inr now', w4) \<Longrightarrow> now' - lastByteTime' > charTimeout \<Longrightarrow>
      P (buffer, bytesRead, lastByteTime) w (Inr (InterCharTimeout, buffer', bytesRead')) w4"
    and again:
      "\<And>buffer bytesRead lastByteTime w now w1 buffer' bytesRead' lastByteTime' w2 a w3 now' w4 r w'.
      bytesRead < len \<Longrightarrow> millis w = (Inr now, w1) \<Longrightarrow> \<not> now - lastByteTime > totalTimeout c \<Longrightarrow>
      drain (serialPort c) len (buffer, bytesRead, lastByteTime) w1
        = (Inr (buffer', bytesRead', lastByteTime'), w2) \<Longrightarrow>
      bytesRead' < len \<Longrightarrow> serial_available (serialPort c) w2 = (Inr a, w3) \<Longrightarrow> a = 0 \<Longrightarrow>
      millis w3 = (Inr now', w4) \<Longrightarrow> \<not> now' - lastByteTime' > charTimeout \<Longrightarrow>
      recv_loop c len charTimeout (buffer', bytesRead', lastByteTime') w4 = (r, w') \<Longrightarrow>
      P (buffer', bytesRead', lastByteTime') w4 r w' \<Longrightarrow>
      P (buffer, bytesRead, lastByteTime) w r w'"
  shows "P st w (fst (recv_loop c len charTimeout st w)) (snd (recv_loop c len charTimeout st w))"
  using assms
proof (induction c len charTimeout st w rule: recv_loop.induct)
  case (1 c len charTimeout buffer bytesRead lastByteTime w)
  note rules = "1.prems"
  let ?st = "(buffer, bytesRead, lastByteTime)"
  obtain r1 w1 where m1: "millis w = (r1, w1)" by (cases "millis w")
  obtain r2 w2 where d: "drain (serialPort c) len ?st w1 = (r2, w2)"
    by (cases "drain (serialPort c) len ?st w1")
  obtain r3 w3 where av: "serial_available (serialPort c) w2 = (r3, w3)"
    by (cases "serial_available (serialPort c) w2")
  obtain r4 w4 where m2: "millis w3 = (r4, w4)" by (cases "millis w3")
  show ?case
  proof (cases "bytesRead < len")
    case False
    then show ?thesis using rules(1) by (subst (1 2) recv_loop.simps) simp
  next
    case True
    note lt = this
    show ?thesis
    proof (cases r1)
      case (Inl e)
      then show ?thesis using lt m1 rules(2) by (subst (1 2) recv_loop.simps) simp
    next
      case (Inr now)
      note r1 = this
      show ?thesis
      proof (cases "now - lastByteTime > totalTimeout c")
        case True
        then show ?thesis using lt m1 r1 rules(3) by (subst (1 2) recv_loop.simps) simp
      next
        case False
        note nt = this
        show ?thesis
        proof (cases r2)
          case (Inl e)
          then show ?thesis using lt m1 r1 nt d rules(4) by (subst (1 2) recv_loop.simps) simp
        next
          case (Inr st')
          obtain buffer' bytesRead' lastByteTime' where st': "st' = (buffer', bytesRead', lastByteTime')"
            by (cases st') auto
          note r2 = Inr[unfolded st']
          let ?st' = "(buffer', bytesRead', lastByteTime')"
          show ?thesis
          proof (cases "bytesRead' < len")
            case False
            have ih: "P ?st' w2 (fst (recv_loop c len charTimeout ?st' w2)) (snd (recv_loop c len charTimeout ?st' w2))"
              using "1.IH"(3)[OF lt m1[symmetric, unfolded r1] refl nt d[symmetric, unfolded r2] refl refl refl False rules] .
            have "P ?st w (fst (recv_loop c len charTimeout ?st' w2)) (snd (recv_loop c len charTimeout ?st' w2))"
              using rules(5)[OF lt m1[unfolded r1] nt d[unfolded r2] False _ ih] by simp
            then show ?thesis using lt m1 r1 nt d r2 False by (subst (1 2) recv_loop.simps) simp
          next
            case True
            note lt' = this
            show ?thesis
            proof (cases r3)
              case (Inl e)
              then show ?thesis using lt m1 r1 nt d r2 lt' av rules(6)
                by (subst (1 2) recv_loop.simps) simp
            next
              case (Inr a)
              note r3 = this
              show ?thesis
              proof (cases "a = 0")
                case False
                have ih: "P ?st' w3 (fst (recv_loop c len charTimeout ?st' w3)) (snd (recv_loop c len charTimeout ?st' w3))"
                  using "1.IH"(2)[OF lt m1[symmetric, unfolded r1] refl nt d[symmetric, unfolded r2] refl refl refl
                      lt' av[symmetric, unfolded r3] refl False rules] .
                have "P ?st w (fst (recv_loop c len charTimeout ?st' w3)) (snd (recv_loop c len charTimeout ?st' w3))"
                  using rules(7)[OF lt m1[unfolded r1] nt d[unfolded r2] lt' av[unfolded r3] False _ ih] by simp
                then show ?thesis using lt m1 r1 nt d r2 lt' av r3 False
                  by (subst (1 2) recv_loop.simps) simp
              next
                case True
                note a0 = this
                show ?thesis
                proof (cases r4)
                  case (Inl e)
                  then show ?thesis using lt m1 r1 nt d r2 lt' av r3 a0 m2 rules(8)
                    by (subst (1 2) recv_loop.simps) simp
                next
                  case (Inr now')
                  note r4 = this
                  show ?thesis
                  proof (cases "now' - lastByteTime' > charTimeout")
                    case True
                    then show ?thesis using lt m1 r1 nt d r2 lt' av r3 a0 m2 r4 rules(9)
                      by (subst (1 2) recv_loop.simps) simp
                  next
                    case False
                    have ih: "P ?st' w4 (fst (recv_loop c len charTimeout ?st' w4)) (snd (recv_loop c len charTimeout ?st' w4))"
                      using "1.IH"(1)[OF lt m1[symmetric, unfolded r1] refl nt d[symmetric, unfolded r2] refl refl refl
                          lt' av[symmetric, unfolded r3] refl a0 m2[symmetric, unfolded r4] refl False rules] .
                    have "P ?st w (fst (recv_loop c len charTimeout ?st' w4)) (snd (recv_loop c len charTimeout ?st' w4))"
                      using rules(10)[OF lt m1[unfolded r1] nt d[unfolded r2] lt' av[unfolded r3] a0 m2[unfolded r4] False _ ih]
                      by simp
                    then show ?thesis using lt m1 r1 nt d r2 lt' av r3 a0 m2 r4 False
                      by (subst (1 2) recv_loop.simps) simp
                  qed
                qed
              qed
            qed
          qed
        qed
      qed
    qed
  qed
qed

section \<open>Properties of the timed frame receiver\<close>

lemma millis_effect:
  "millis w = (r, w') \<Longrightarrow>
   calls w' = calls w \<and> pin_level w' = pin_level w \<and> read_in w' = read_in w"
  by (auto simp: millis_def split: list.splits)

lemma serial_available_effect:
  "serial_available sp w = (r, w') \<Longrightarrow>
   calls w' = calls w \<and> pin_level w' = pin_level w \<and> read_in w' = read_in w"
  by (auto simp: serial_available_def split: option.splits list.splits)

lemma serial_read_effect:
  "serial_read sp w = (r, w') \<Longrightarrow> calls w' = calls w \<and> pin_level w' = pin_level w"
  by (auto simp: serial_read_def split: option.splits list.splits)

lemma serial_read_consumes:
  "serial_read sp w = (Inr b, w') \<Longrightarrow> read_in w = b # read_in w'"
  by (auto simp: serial_read_def split: option.splits list.splits)

lemma drain_outputs:
  "calls (snd (drain sp len st w)) = calls w \<and> pin_level (snd (drain sp len st w)) = pin_level w"
  by (rule drain_outcome_induct
        [where P = "\<lambda>st w r w'. calls w' = calls w \<and> pin_level w' = pin_level w"])
     (auto dest!: millis_effect serial_available_effect serial_read_effect)

lemma drain_result_aux:
  "case st of (buffer, bytesRead, lastByteTime) \<Rightarrow>
     (case fst (drain sp len st w) of
        Inl e \<Rightarrow> True
      | Inr (buffer', bytesRead', lastByteTime') \<Rightarrow>
          length buffer' = length buffer \<and> bytesRead \<le> bytesRead'
          \<and> (bytesRead \<le> len \<longrightarrow> bytesRead' \<le> len)
          \<and> (\<exists>bytes. read_in w = bytes @ read_in (snd (drain sp len st w))
                \<and> length bytes = bytesRead' - bytesRead))"
proof (rule drain_outcome_induct
        [where P = "\<lambda>st w r w'. case st of (buffer, bytesRead, lastByteTime) \<Rightarrow>
     (case r of
        Inl e \<Rightarrow> True
      | Inr (buffer', bytesRead', lastByteTime') \<Rightarrow>
          length buffer' = length buffer \<and> bytesRead \<le> bytesRead'
          \<and> (bytesRead \<le> len \<longrightarrow> bytesRead' \<le> len)
          \<and> (\<exists>bytes. read_in w = bytes @ read_in w'
                \<and> length bytes = bytesRead' - bytesRead))"], goal_cases)
  case (1 buffer bytesRead lastByteTime w e w1)
  then show ?case by simp
next
  case (2 buffer bytesRead lastByteTime w a w1)
  then show ?case by (auto dest!: serial_available_effect)
next
  case (3 buffer bytesRead lastByteTime w a w1 e w2)
  then show ?case by simp
next
  case (4 buffer bytesRead lastByteTime w a w1 b w2)
  then show ?case by simp
next
  case (5 buffer bytesRead lastByteTime w a w1 b w2 e w3)
  then show ?case by simp
next
  case (6 buffer bytesRead lastByteTime w a w1 b w2 t w3 r w')
  have rd: "read_in w = b # read_in w3"
    using 6(1,4,6) by (auto dest!: serial_available_effect serial_read_consumes millis_effect)
  show ?case
  proof (cases r)
    case (Inl e)
    then show ?thesis by simp
  next
    case (Inr res)
    obtain buffer' bytesRead' lastByteTime' where res: "res = (buffer', bytesRead', lastByteTime')"
      by (cases res) auto
    from 6(8) Inr res obtain bytes where
      ih: "length buffer' = length buffer" "bytesRead + 1 \<le> bytesRead'"
          "bytesRead + 1 \<le> len \<longrightarrow> bytesRead' \<le> len"
          "read_in w3 = bytes @ read_in w'" "length bytes = bytesRead' - (bytesRead + 1)"
      by auto
    have "read_in w = (b # bytes) @ read_in w'" using rd ih(4) by simp
    moreover have "length (b # bytes) = bytesRead' - bytesRead" using ih(2,5) by simp
    ultimately have "\<exists>bytes. read_in w = bytes @ read_in w' \<and> length bytes = bytesRead' - bytesRead"
      by blast
    then show ?thesis using Inr res ih(1,2,3) 6(3) by simp
  qed
qed

lemma drain_result:
  assumes "drain sp len (buffer, bytesRead, lastByteTime) w = (Inr (buffer', bytesRead', lastByteTime'), w')"
  shows "length buffer' = length buffer" and "bytesRead \<le> bytesRead'"
    and "bytesRead \<le> len \<Longrightarrow> bytesRead' \<le> len"
    and "\<exists>bytes. read_in w = bytes @ read_in w' \<and> length bytes = bytesRead' - bytesRead"
  using drain_result_aux[where st = "(buffer, bytesRead, lastByteTime)" and sp = sp and len = len and w = w] assms by auto


lemma drain_outputs':
  "drain sp len st w = (r, w') \<Longrightarrow> calls w' = calls w \<and> pin_level w' = pin_level w"
  using drain_outputs[of sp len st w] by simp

lemma recv_loop_outputs:
  "calls (snd (recv_loop c len charTimeout st w)) = calls w
   \<and> pin_level (snd (recv_loop c len charTimeout st w)) = pin_level w"
  by (rule recv_loop_outcome_induct
        [where P = "\<lambda>st w r w'. calls w' = calls w \<and> pin_level w' = pin_level w"])
     (auto dest!: millis_effect serial_available_effect drain_outputs')

lemma recv_loop_result_aux:
  "case st of (buffer, bytesRead, lastByteTime) \<Rightarrow>
     (case fst (recv_loop c len charTimeout st w) of
        Inl e \<Rightarrow> True
      | Inr (ex, buffer', bytesRead') \<Rightarrow>
          length buffer' = length buffer \<and> bytesRead \<le> bytesRead'
          \<and> (bytesRead \<le> len \<longrightarrow> bytesRead' \<le> len)
          \<and> (ex = LoopCondition \<longleftrightarrow> \<not> bytesRead' < len)
          \<and> (\<exists>bytes. read_in w = bytes @ read_in (snd (recv_loop c len charTimeout st w))
                \<and> length bytes = bytesRead' - bytesRead))"
proof (rule recv_loop_outcome_induct
        [where P = "\<lambda>st w r w'. case st of (buffer, bytesRead, lastByteTime) \<Rightarrow>
     (case r of
        Inl e \<Rightarrow> True
      | Inr (ex, buffer', bytesRead') \<Rightarrow>
          length buffer' = length buffer \<and> bytesRead \<le> bytesRead'
          \<and> (bytesRead \<le> len \<longrightarrow> bytesRead' \<le> len)
          \<and> (ex = LoopCondition \<longleftrightarrow> \<not> bytesRead' < len)
          \<and> (\<exists>bytes. read_in w = bytes @ read_in w'
                \<and> length bytes = bytesRead' - bytesRead))"], goal_cases)
  case (1 buffer bytesRead lastByteTime w)
  then show ?case by simp
next
  case (2 buffer bytesRead lastByteTime w e w1)
  then show ?case by simp
next
  case (3 buffer bytesRead lastByteTime w now w1)
  then show ?case by (auto dest!: millis_effect)
next
  case (4 buffer bytesRead lastByteTime w now w1 e w2)
  then show ?case by simp
next
  case (5 buffer bytesRead lastByteTime w now w1 buffer' bytesRead' lastByteTime' w2 r w')
  note d = drain_result[OF 5(4)]
  have rd: "read_in w1 = read_in w" using 5(2) by (auto dest!: millis_effect)
  show ?case
  proof (cases r)
    case (Inl e)
    then show ?thesis by simp
  next
    case (Inr res)
    obtain ex buffer'' bytesRead'' where res: "res = (ex, buffer'', bytesRead'')" by (cases res) auto
    from d(4) obtain bs1 where bs1: "read_in w1 = bs1 @ read_in w2" "length bs1 = bytesRead' - bytesRead"
      by blast
    from 5(7) Inr res obtain bs2 where
      ih: "length buffer'' = length buffer'" "bytesRead' \<le> bytesRead''"
          "bytesRead' \<le> len \<longrightarrow> bytesRead'' \<le> len"
          "ex = LoopCondition \<longleftrightarrow> \<not> bytesRead'' < len"
          "read_in w2 = bs2 @ read_in w'" "length bs2 = bytesRead'' - bytesRead'"
      by auto
    have "read_in w = (bs1 @ bs2) @ read_in w'" using rd bs1(1) ih(5) by simp
    moreover have "length (bs1 @ bs2) = bytesRead'' - bytesRead" using bs1(2) ih(2,6) d(2) by simp
    ultimately have "\<exists>bytes. read_in w = bytes @ read_in w' \<and> length bytes = bytesRead'' - bytesRead"
      by blast
    then show ?thesis using Inr res ih(1-4) d(1,2,3) by auto
  qed
next
  case (6 buffer bytesRead lastByteTime w now w1 buffer' bytesRead' lastByteTime' w2 e w3)
  then show ?case by simp
next
  case (7 buffer bytesRead lastByteTime w now w1 buffer' bytesRead' lastByteTime' w2 a w3 r w')
  note d = drain_result[OF 7(4)]
  have rd: "read_in w1 = read_in w" "read_in w3 = read_in w2"
    using 7(2,6) by (auto dest!: millis_effect serial_available_effect)
  show ?case
  proof (cases r)
    case (Inl e)
    then show ?thesis by simp
  next
    case (Inr res)
    obtain ex buffer'' bytesRead'' where res: "res = (ex, buffer'', bytesRead'')" by (cases res) auto
    from d(4) obtain bs1 where bs1: "read_in w1 = bs1 @ read_in w2" "length bs1 = bytesRead' - bytesRead"
      by blast
    from 7(9) Inr res obtain bs2 where
      ih: "length buffer'' = length buffer'" "bytesRead' \<le> bytesRead''"
          "bytesRead' \<le> len \<longrightarrow> bytesRead'' \<le> len"
          "ex = LoopCondition \<longleftrightarrow> \<not> bytesRead'' < len"
          "read_in w3 = bs2 @ read_in w'" "length bs2 = bytesRead'' - bytesRead'"
      by auto
    have "read_in w = (bs1 @ bs2) @ read_in w'" using rd bs1(1) ih(5) by simp
    moreover have "length (bs1 @ bs2) = bytesRead'' - bytesRead" using bs1(2) ih(2,6) d(2) by simp
    ultimately have "\<exists>bytes. read_in w = bytes @ read_in w' \<and> length bytes = bytesRead'' - bytesRead"
      by blast
    then show ?thesis using Inr res ih(1-4) d(1,2,3) by auto
  qed
next
  case (8 buffer bytesRead lastByteTime w now w1 buffer' bytesRead' lastByteTime' w2 a w3 e w4)
  then show ?case by simp
next
  case (9 buffer bytesRead lastByteTime w now w1 buffer' bytesRead' lastByteTime' w2 a w3 now' w4)
  note d = drain_result[OF 9(4)]
  have rd: "read_in w1 = read_in w" "read_in w4 = read_in w2"
    using 9(2,6,8) by (auto dest!: millis_effect serial_available_effect)
  from d(4) rd have "\<exists>bytes. read_in w = bytes @ read_in w4 \<and> length bytes = bytesRead' - bytesRead"
    by simp
  then show ?case using d(1,2,3) 9(5) by auto
next
  case (10 buffer bytesRead lastByteTime w now w1 buffer' bytesRead' lastByteTime' w2 a w3 now' w4 r w')
  note d = drain_result[OF 10(4)]
  have rd: "read_in w1 = read_in w" "read_in w4 = read_in w2"
    using 10(2,6,8) by (auto dest!: millis_effect serial_available_effect)
  show ?case
  proof (cases r)
    case (Inl e)
    then show ?thesis by simp
  next
    case (Inr res)
    obtain ex buffer'' bytesRead'' where res: "res = (ex, buffer'', bytesRead'')" by (cases res) auto
    from d(4) obtain bs1 where bs1: "read_in w1 = bs1 @ read_in w2" "length bs1 = bytesRead' - bytesRead"
      by blast
    from 10(11) Inr res obtain bs2 where
      ih: "length buffer'' = length buffer'" "bytesRead' \<le> bytesRead''"
          "bytesRead' \<le> len \<longrightarrow> bytesRead'' \<le> len"
          "ex = LoopCondition \<longleftrightarrow> \<not> bytesRead'' < len"
          "read_in w4 = bs2 @ read_in w'" "length bs2 = bytesRead'' - bytesRead'"
      by auto
    have "read_in w = (bs1 @ bs2) @ read_in w'" using rd bs1(1) ih(5) by simp
    moreover have "length (bs1 @ bs2) = bytesRead'' - bytesRead" using bs1(2) ih(2,6) d(2) by simp
    ultimately have "\<exists>bytes. read_in w = bytes @ read_in w' \<and> length bytes = bytesRead'' - bytesRead"
      by blast
    then show ?thesis using Inr res ih(1-4) d(1,2,3) by auto
  qed
qed

lemma recv_loop_result:
  assumes "recv_loop c len charTimeout (buffer, bytesRead, lastByteTime) w = (Inr (ex, buffer', bytesRead'), w')"
  shows "length buffer' = length buffer" and "bytesRead \<le> bytesRead'"
    and "bytesRead \<le> len \<Longrightarrow> bytesRead' \<le> len"
    and "ex = LoopCondition \<longleftrightarrow> \<not> bytesRead' < len"
    and "\<exists>bytes. read_in w = bytes @ read_in w' \<and> length bytes = bytesRead' - bytesRead"
  using recv_loop_result_aux[where st = "(buffer, bytesRead, lastByteTime)" and c = c and len = len
      and charTimeout = charTimeout and w = w] assms by auto

lemma receiveData_outputs:
  "calls (snd (receiveData c buffer len w)) = calls w
   \<and> pin_level (snd (receiveData c buffer len w)) = pin_level w"
proof -
  have "calls (snd (recv_loop c len ct st w1)) = calls w \<and> pin_level (snd (recv_loop c len ct st w1)) = pin_level w"
    if "millis w = (r, w1)" for r w1 ct st
    using recv_loop_outputs[of c len ct st w1] millis_effect[OF that] by simp
  then show ?thesis
    by (auto simp: receiveData_def Let_def dest: millis_effect split: option.splits prod.splits sum.splits)
       (metis snd_conv)+
qed

lemma stalling_run:
  "receiveData ready_client (Some [0, 0, 0]) 3 stalling_world
     = (Inr (False, Some [0x01, 0x03, 0]),
        \<lparr>calls = [], pin_level = (\<lambda>p. LOW), millis_in = [], available_in = [], read_in = []\<rparr>)"
  by (simp add: receiveData_def ready_client_def stalling_world_def recv_loop.simps drain.simps
        millis_def serial_available_def serial_read_def)

text \<open>
  Claim C5. With a null buffer or a zero expected length \<open>receiveData\<close> returns false at
  once and leaves the world untouched (no clock or channel call). Otherwise, whenever
  it returns, it returns true exactly when the number of bytes taken from the channel
  equals the expected length, and exactly when the loop ended by its own condition
  rather than by one of the two timeout \<open>break\<close>s; after a timeout fewer bytes than
  expected were collected and the result is false.
\<close>

theorem receiveData_true_iff_all_bytes_collected:
  "receiveData c None len w = (Inr (False, None), w)
   \<and> receiveData c buffer 0 w = (Inr (False, buffer), w)
   \<and> (0 < len \<and> receiveData c (Some buf) len w = (Inr (ok, buffer'), w') \<longrightarrow>
        (\<exists>t0 w1 ex buf' n bytes.
            millis w = (Inr t0, w1)
          \<and> recv_loop c len ((interCharTimeout c * of_nat len) div 1000) (buf, 0, t0) w1
              = (Inr (ex, buf', n), w')
          \<and> buffer' = Some buf' \<and> length buf' = length buf
          \<and> read_in w = bytes @ read_in w' \<and> length bytes = n
          \<and> n \<le> len
          \<and> (ok \<longleftrightarrow> n = len)
          \<and> (ok \<longleftrightarrow> ex = LoopCondition)))"
proof (intro conjI impI)
  show "receiveData c None len w = (Inr (False, None), w)" by (simp add: receiveData_def)
  show "receiveData c buffer 0 w = (Inr (False, buffer), w)"
    by (simp add: receiveData_def split: option.split)
next
  assume h: "0 < len \<and> receiveData c (Some buf) len w = (Inr (ok, buffer'), w')"
  let ?ct = "(interCharTimeout c * of_nat len) div 1000"
  obtain r1 w1 where m: "millis w = (r1, w1)" by (cases "millis w")
  from h m obtain t0 where t0: "r1 = Inr t0"
    by (cases r1) (auto simp: receiveData_def)
  obtain r2 w2 where l: "recv_loop c len ?ct (buf, 0, t0) w1 = (r2, w2)"
    by (cases "recv_loop c len ?ct (buf, 0, t0) w1")
  from h m t0 l obtain ex buf' n where r2: "r2 = Inr (ex, buf', n)"
    by (cases r2) (auto simp: receiveData_def Let_def)
  from h m t0 l r2 have res: "ok = (n = len)" "buffer' = Some buf'" "w' = w2"
    by (auto simp: receiveData_def Let_def)
  note p = recv_loop_result[OF l[unfolded r2]]
  have rd: "read_in w1 = read_in w" using m by (auto dest!: millis_effect)
  from p(5) rd res(3) obtain bytes where bytes: "read_in w = bytes @ read_in w'" "length bytes = n"
    by auto
  have "n \<le> len" using p(3) by simp
  moreover have "ok \<longleftrightarrow> ex = LoopCondition" using p(3,4) res(1) by auto
  ultimately show "\<exists>t0 w1 ex buf' n bytes.
            millis w = (Inr t0, w1)
          \<and> recv_loop c len ?ct (buf, 0, t0) w1 = (Inr (ex, buf', n), w')
          \<and> buffer' = Some buf' \<and> length buf' = length buf
          \<and> read_in w = bytes @ read_in w' \<and> length bytes = n
          \<and> n \<le> len
          \<and> (ok \<longleftrightarrow> n = len)
          \<and> (ok \<longleftrightarrow> ex = LoopCondition)"
    using m t0 l r2 res p(1) bytes by blast
qed

theorem receiveData_true_iff_all_bytes_collected_witness:
  "0 < (3 :: nat)
   \<and> receiveData ready_client (Some [0, 0, 0]) 3 stalling_world
       = (Inr (False, Some [0x01, 0x03, 0]),
          \<lparr>calls = [], pin_level = (\<lambda>p. LOW), millis_in = [], available_in = [], read_in = []\<rparr>)
   \<and> (\<exists>t0 w1 ex buf' n bytes.
          millis stalling_world = (Inr t0, w1)
        \<and> recv_loop ready_client 3 ((interCharTimeout ready_client * of_nat 3) div 1000) ([0, 0, 0], 0, t0) w1
            = (Inr (ex, buf', n),
               \<lparr>calls = [], pin_level = (\<lambda>p. LOW), millis_in = [], available_in = [], read_in = []\<rparr>)
        \<and> Some [0x01, 0x03, 0] = Some buf' \<and> length buf' = length [0, 0, 0 :: 8 word]
        \<and> read_in stalling_world
            = bytes @ read_in \<lparr>calls = [], pin_level = (\<lambda>p. LOW), millis_in = [], available_in = [], read_in = []\<rparr>
        \<and> length bytes = n
        \<and> n \<le> 3
        \<and> (False \<longleftrightarrow> n = 3)
        \<and> (False \<longleftrightarrow> ex = LoopCondition))"
  using receiveData_true_iff_all_bytes_collected
    [of ready_client 3 stalling_world "None" "[0, 0, 0]" False "Some [0x01, 0x03, 0]"
        "\<lparr>calls = [], pin_level = (\<lambda>p. LOW), millis_in = [], available_in = [], read_in = []\<rparr>"]
    stalling_run
  by simp

section \<open>Properties of the line controller and of an unready client\<close>

text \<open>
  Claim C8. Every call of \<open>sendData\<close> that returns has made exactly four hardware
  calls, in this order: the direction pin to transmit, the write, the flush, the
  direction pin to receive; the pin is at the receive level when it returns. With a
  serial port and the data inside its array the call does return. \<open>begin\<close> on a client
  with a serial port also puts the pin at the receive level.
\<close>

theorem sendData_restores_receive:
  "(fst (sendData c data len w) = Inr () \<longrightarrow>
      (\<exists>p bytes. serialPort c = Some p
         \<and> calls (snd (sendData c data len w)) =
             calls w @ [DigitalWrite (transmitterModeContact c) RS485Transmit,
                        SerialWrite p bytes,
                        SerialFlush p,
                        DigitalWrite (transmitterModeContact c) RS485Receive])
      \<and> pin_level (snd (sendData c data len w)) (transmitterModeContact c) = RS485Receive)
   \<and> (serialPort c = Some p \<and> len \<le> length ds \<longrightarrow>
      sendData c (Some ds) len w =
        (Inr (), w\<lparr>calls := calls w @ [DigitalWrite (transmitterModeContact c) RS485Transmit,
                                       SerialWrite p (take len ds),
                                       SerialFlush p,
                                       DigitalWrite (transmitterModeContact c) RS485Receive],
                   pin_level := (pin_level w)(transmitterModeContact c := RS485Receive)\<rparr>))
   \<and> (serialPort c = Some p \<longrightarrow>
      pin_level (snd (HS321_begin ict c w)) (transmitterModeContact c) = RS485Receive
      \<and> DigitalWrite (transmitterModeContact c) RS485Receive \<in> set (calls (snd (HS321_begin ict c w))))"
  by (auto simp: sendData_def serial_write_def serial_flush_def digitalWrite_def HS321_begin_def Let_def
        serial_begin_def serial_println_def pinMode_def split: option.splits if_splits)

theorem sendData_restores_receive_witness:
  "serialPort (HS321 1 (Some 0) None 9600 2) = Some 0 \<and> 2 \<le> length [0xAB, 0xCD :: 8 word]
   \<and> fst (sendData (HS321 1 (Some 0) None 9600 2) (Some [0xAB, 0xCD]) 2 silent_world) = Inr ()
   \<and> sendData (HS321 1 (Some 0) None 9600 2) (Some [0xAB, 0xCD]) 2 silent_world
      = (Inr (), \<lparr>calls = [DigitalWrite 2 HIGH, SerialWrite 0 [0xAB, 0xCD], SerialFlush 0, DigitalWrite 2 LOW],
                  pin_level = (\<lambda>p. HIGH)(2 := LOW), millis_in = [], available_in = [], read_in = []\<rparr>)
   \<and> pin_level (snd (sendData (HS321 1 (Some 0) None 9600 2) (Some [0xAB, 0xCD]) 2 silent_world)) 2 = LOW
   \<and> pin_level (snd (HS321_begin 3645 (HS321 1 (Some 0) None 9600 2) silent_world)) 2 = LOW"
  using sendData_restores_receive [of "HS321 1 (Some 0) None 9600 2" "Some [0xAB, 0xCD]" 2 silent_world 0
      "[0xAB, 0xCD]" 3645]
  by (simp add: HS321_def RS485Receive_def RS485Transmit_def silent_world_def)

text \<open>
  Claim C9. On a client that was only constructed (\<open>begin\<close> never called), and on a
  client whose \<open>begin\<close> found the serial port pointer null, every exposed operation
  (\<open>readFaultDescription\<close>, \<open>readRunningState\<close>, \<open>writeControlCommand\<close> and the four
  group wrappers) returns false and makes no hardware call: the world it returns is the
  world it was given.
\<close>

theorem not_ready_client_refuses:
  "c = HS321 slaveAddr port dbg bd contact
     \<or> c = fst (HS321_begin ict (HS321 slaveAddr None dbg bd contact) w0)
   \<Longrightarrow>
     readFaultDescription c faultCode w = (Inr (False, faultCode), w)
   \<and> readRunningState c state w = (Inr (False, state), w)
   \<and> writeControlCommand c command w = (Inr False, w)
   \<and> readSingleGroupParameter c grp numberGroup val w = (Inr (False, val), w)
   \<and> readParametersInGroups c grp numberGroup arrayValues n w = (Inr (False, arrayValues), w)
   \<and> writeSingleGroupParameter c grp numberGroup v w = (Inr False, w)
   \<and> writeParametersInGroups c grp numberGroup arrayData n w = (Inr False, w)"
  by (auto simp: HS321_def HS321_begin_def isInitialized_def readFaultDescription_def readRunningState_def
        writeControlCommand_def readSingleGroupParameter_def readParametersInGroups_def
        writeSingleGroupParameter_def writeParametersInGroups_def)

theorem not_ready_client_refuses_witness:
  "\<not> initialized (fst (HS321_begin 3645 (HS321 1 None (Some 1) 9600 2) silent_world))
   \<and> readFaultDescription (fst (HS321_begin 3645 (HS321 1 None (Some 1) 9600 2) silent_world))
         (Some [7]) silent_world
       = (Inr (False, Some [7]), silent_world)
   \<and> readRunningState (fst (HS321_begin 3645 (HS321 1 None (Some 1) 9600 2) silent_world))
         (Some [7]) silent_world
       = (Inr (False, Some [7]), silent_world)
   \<and> writeControlCommand (fst (HS321_begin 3645 (HS321 1 None (Some 1) 9600 2) silent_world))
         FORWARD_RUN_COMMAND silent_world
       = (Inr False, silent_world)
   \<and> readSingleGroupParameter (fst (HS321_begin 3645 (HS321 1 None (Some 1) 9600 2) silent_world))
         GROUP_FC 0 (Some [7]) silent_world
       = (Inr (False, Some [7]), silent_world)
   \<and> readParametersInGroups (fst (HS321_begin 3645 (HS321 1 None (Some 1) 9600 2) silent_world))
         GROUP_FC 0 (Some [7, 8]) 2 silent_world
       = (Inr (False, Some [7, 8]), silent_world)
   \<and> writeSingleGroupParameter (fst (HS321_begin 3645 (HS321 1 None (Some 1) 9600 2) silent_world))
         GROUP_FC 0 50 silent_world
       = (Inr False, silent_world)
   \<and> writeParametersInGroups (fst (HS321_begin 3645 (HS321 1 None (Some 1) 9600 2) silent_world))
         GROUP_FC 0 (Some [50, 60]) 2 silent_world
       = (Inr False, silent_world)"
  using not_ready_client_refuses
    [of "fst (HS321_begin 3645 (HS321 1 None (Some 1) 9600 2) silent_world)" 1 None "Some 1" 9600 2 3645
        silent_world "Some [7]" silent_world "Some [7]" FORWARD_RUN_COMMAND GROUP_FC 0 "Some [7]"
        "Some [7, 8]" 2 50 "Some [50, 60]"]
  by (simp add: HS321_begin_def HS321_def)

section \<open>Properties of the read orchestrator\<close>

lemma ff_mask16: "(0xFF :: 16 word) = mask 8"
  by (simp add: mask_eq_exp_minus_1)

lemma ucast_and_ff: "(ucast (x AND 0xFF :: 16 word) :: 8 word) = ucast x"
  unfolding ff_mask16 by (rule bit_word_eqI) (auto simp: bit_simps)

lemma code_lo_byte: "ucast (x AND 0xFF :: 16 word) = lo_byte x"
  by (simp add: lo_byte_def ucast_and_ff)

lemma code_hi_byte: "ucast (drop_bit 8 x AND 0xFF :: 16 word) = hi_byte x"
  by (simp add: hi_byte_def ucast_and_ff)

lemma lo_byte_drop_bit: "lo_byte (drop_bit 8 x) = hi_byte x"
  by (simp add: lo_byte_def hi_byte_def)

lemma join_bytes: "push_bit 8 (ucast (hi_byte x)) OR ucast (lo_byte x) = x"
  unfolding hi_byte_def lo_byte_def
  by (rule bit_word_eqI) (auto simp: bit_simps)

lemma nat_and_ff: "(n :: nat) AND 0xFF = n mod 256"
proof -
  have "n AND mask 8 = n mod 2 ^ 8"
    by (simp only: take_bit_eq_mask[symmetric] take_bit_eq_mod)
  moreover have "mask 8 = (0xFF :: nat)" by (simp add: mask_eq_exp_minus_1)
  ultimately show ?thesis by simp
qed

lemma nat_drop8: "drop_bit 8 (n :: nat) = n div 256"
  by (simp add: drop_bit_eq_div)

lemma replicate_eight: "replicate 8 x = [x, x, x, x, x, x, x, x]"
  by (simp add: eval_nat_numeral)

lemma update_first_six:
  "[a0, a1, a2, a3, a4, a5, a6, a7][0 := b0, 1 := b1, 2 := b2, 3 := b3, 4 := b4, 5 := b5]
     = [b0, b1, b2, b3, b4, b5, a6, a7]"
  by (simp add: eval_nat_numeral)

lemma update_last_two:
  "[a0, a1, a2, a3, a4, a5, a6, a7][6 := b6, 7 := b7] = [a0, a1, a2, a3, a4, a5, b6, b7]"
  by (simp add: eval_nat_numeral)

lemma take_six: "take 6 [a0, a1, a2, a3, a4, a5, a6, a7] = [a0, a1, a2, a3, a4, a5]"
  by (simp add: eval_nat_numeral)

lemma read_request_cells:
  "read_request slaveAddr startAddress n =
     [slaveAddr, 0x03, hi_byte startAddress, lo_byte startAddress, of_nat (n div 256), of_nat (n mod 256), 0, 0]"
  unfolding read_request_def replicate_eight update_first_six
  by (simp add: READ_def hi_byte_def code_lo_byte nat_and_ff nat_drop8)

lemma read_request_crc:
  "calculateCRC (Some (read_request slaveAddr startAddress n)) 6 =
     Inr (spec_crc16 [slaveAddr, 0x03, hi_byte startAddress, lo_byte startAddress,
                      of_nat (n div 256), of_nat (n mod 256)])"
  using calculateCRC_spec[of 6 "read_request slaveAddr startAddress n"]
  by (simp add: read_request_cells take_six)

lemma read_request_framed:
  "(read_request slaveAddr startAddress n)
     [6 := ucast (crc AND 0xFF), 7 := ucast (drop_bit 8 crc AND 0xFF)]
   = [slaveAddr, 0x03, hi_byte startAddress, lo_byte startAddress, of_nat (n div 256), of_nat (n mod 256)]
     @ [lo_byte crc, hi_byte crc]"
  unfolding read_request_cells update_last_two by (simp add: code_lo_byte code_hi_byte lo_byte_drop_bit)

lemma sendData_effect:
  "serialPort c = Some p \<Longrightarrow> len \<le> length ds \<Longrightarrow>
   sendData c (Some ds) len w =
     (Inr (), w\<lparr>calls := calls w @ [DigitalWrite (transmitterModeContact c) RS485Transmit,
                                    SerialWrite p (take len ds),
                                    SerialFlush p,
                                    DigitalWrite (transmitterModeContact c) RS485Receive],
                pin_level := (pin_level w)(transmitterModeContact c := RS485Receive)\<rparr>)"
  by (simp add: sendData_def serial_write_def serial_flush_def digitalWrite_def)

lemma receiveData_calls:
  "receiveData c buffer len w = (r, w') \<Longrightarrow> calls w' = calls w"
  using receiveData_outputs[of c buffer len w] by simp

lemma readParameters_unfold:
  assumes "1 \<le> n" and "n \<le> 125"
  shows "readParameters c slaveAddr startAddress (Some arr) n w =
     (case sendData c (Some (spec_read_request slaveAddr startAddress n)) 8 w of
        (Inl e, w1) \<Rightarrow> (Inl e, w1)
      | (Inr u, w1) \<Rightarrow>
          (case receiveData c (Some (replicate (5 + n * 2) 0)) (5 + n * 2) w1 of
             (Inl e, w2) \<Rightarrow> (Inl e, w2)
           | (Inr (ok, None), w2) \<Rightarrow> (Inl NullDeref, w2)
           | (Inr (ok, Some response), w2) \<Rightarrow>
               if \<not> ok then (Inr (False, Some arr), w2)
               else (decode_response slaveAddr (Some arr) n response, w2)))"
proof -
  let ?body = "[slaveAddr, 0x03, hi_byte startAddress, lo_byte startAddress,
                of_nat (n div 256), of_nat (n mod 256)]"
  have frame: "(read_request slaveAddr startAddress n)
     [6 := ucast (spec_crc16 ?body AND 0xFF), 7 := ucast (drop_bit 8 (spec_crc16 ?body) AND 0xFF)]
     = spec_read_request slaveAddr startAddress n"
    by (simp only: read_request_framed spec_read_request_def spec_frame_def)
  have n1: "\<not> (Some arr = None \<or> n = 0)" and n2: "\<not> n > 125" using assms by auto
  show ?thesis
    by (simp only: readParameters_def n1 n2 if_False Let_def read_request_crc sum.case frame)
qed

text \<open>
  Claim C3. For a register count from 1 to 125 and a non-null output array,
  \<open>readParameters\<close> transmits exactly the 8-byte frame
  \<open>[addr][0x03][startHi][startLo][countHi][countLo][crcLo][crcHi]\<close>, the last two bytes
  being the CRC16 of the first six, low byte first: the output calls it makes on the
  hardware are the four of one \<open>sendData\<close> with that frame, whatever the reception
  does afterwards. For a count of 0, a count above 125 or a null array it returns false
  and the world is unchanged.
\<close>

theorem readParameters_request_frame:
  "(arrayValues = None \<or> numberRegisters = 0 \<or> numberRegisters > 125 \<longrightarrow>
      readParameters c slaveAddr startAddress arrayValues numberRegisters w = (Inr (False, arrayValues), w))
   \<and> (1 \<le> numberRegisters \<and> numberRegisters \<le> 125 \<and> serialPort c = Some p \<longrightarrow>
      calls (snd (readParameters c slaveAddr startAddress (Some arr) numberRegisters w)) =
        calls w @ [DigitalWrite (transmitterModeContact c) RS485Transmit,
                   SerialWrite p (spec_read_request slaveAddr startAddress numberRegisters),
                   SerialFlush p,
                   DigitalWrite (transmitterModeContact c) RS485Receive])"
proof (intro conjI impI)
  assume "arrayValues = None \<or> numberRegisters = 0 \<or> numberRegisters > 125"
  then show "readParameters c slaveAddr startAddress arrayValues numberRegisters w = (Inr (False, arrayValues), w)"
    by (auto simp: readParameters_def)
next
  assume h: "1 \<le> numberRegisters \<and> numberRegisters \<le> 125 \<and> serialPort c = Some p"
  let ?frame = "spec_read_request slaveAddr startAddress numberRegisters"
  let ?sent = "[DigitalWrite (transmitterModeContact c) RS485Transmit, SerialWrite p ?frame,
                SerialFlush p, DigitalWrite (transmitterModeContact c) RS485Receive]"
  have len: "length ?frame = 8" by (simp add: spec_read_request_def spec_frame_def)
  obtain w1 where send: "sendData c (Some ?frame) 8 w = (Inr (), w1)" and c1: "calls w1 = calls w @ ?sent"
    using sendData_effect[of c p 8 ?frame w] h len by simp
  let ?size = "5 + numberRegisters * 2"
  obtain r2 w2 where recv: "receiveData c (Some (replicate ?size 0)) ?size w1 = (r2, w2)"
    by (cases "receiveData c (Some (replicate ?size 0)) ?size w1")
  have c2: "calls w2 = calls w @ ?sent" using receiveData_calls[OF recv] c1 by simp
  have "snd (readParameters c slaveAddr startAddress (Some arr) numberRegisters w) = w2"
    unfolding readParameters_unfold[of numberRegisters, OF conjunct1[OF h] conjunct1[OF conjunct2[OF h]]]
    using send recv by (auto split: sum.splits option.splits)
  then show "calls (snd (readParameters c slaveAddr startAddress (Some arr) numberRegisters w)) = calls w @ ?sent"
    using c2 by simp
qed

theorem readParameters_request_frame_witness:
  "1 \<le> (1 :: nat) \<and> (1 :: nat) \<le> 125 \<and> serialPort ready_client = Some 0
   \<and> calls (snd (readParameters ready_client 1 0x3000 (Some [7]) 1 answering_world)) =
        [DigitalWrite 2 HIGH, SerialWrite 0 [0x01, 0x03, 0x30, 0x00, 0x00, 0x01, 0x8B, 0x0A],
         SerialFlush 0, DigitalWrite 2 LOW]
   \<and> readParameters ready_client 1 0x3000 None 1 answering_world = (Inr (False, None), answering_world)"
  using readParameters_request_frame [of None 1 ready_client 1 "0x3000" answering_world 0 "[7]"]
  by (simp add: ready_client_def answering_world_def spec_read_request_def spec_frame_def
        spec_crc16_def spec_crc_round_def funpow_eight hi_byte_def lo_byte_def
        RS485Transmit_def RS485Receive_def)

declare store_values.simps [simp del] fill_values.simps [simp del]

lemma big_endian_length: "length (big_endian vals) = 2 * length vals"
  by (induction vals) (simp_all add: big_endian_def)

lemma big_endian_Cons: "big_endian (v # vals) = hi_byte v # lo_byte v # big_endian vals"
  by (simp add: big_endian_def)

lemma big_endian_nth:
  "k < length vals \<Longrightarrow>
   big_endian vals ! (k * 2) = hi_byte (vals ! k) \<and> big_endian vals ! (k * 2 + 1) = lo_byte (vals ! k)"
proof (induction vals arbitrary: k)
  case Nil
  then show ?case by simp
next
  case (Cons v vals)
  show ?case
  proof (cases k)
    case 0
    then show ?thesis by (simp add: big_endian_Cons)
  next
    case (Suc j)
    with Cons.prems have "j < length vals" by simp
    from Cons.IH[OF this] Suc show ?thesis by (simp add: big_endian_Cons)
  qed
qed

lemma store_values_decodes:
  assumes "\<forall>k<n. push_bit 8 (ucast (resp ! (3 + k * 2))) OR ucast (resp ! (3 + k * 2 + 1)) = vals ! k"
    and "length vals = n" and "n \<le> length arr" and "i \<le> n"
  shows "store_values resp n i arr = Inr (take i arr @ drop i vals @ drop n arr)"
  using assms
proof (induction resp n i arr rule: store_values.induct)
  case (1 response numberRegisters i arr)
  show ?case
  proof (cases "i < numberRegisters")
    case False
    with 1 show ?thesis by (subst store_values.simps) simp
  next
    case True
    let ?v = "push_bit 8 (ucast (response ! (3 + i * 2))) OR ucast (response ! (3 + i * 2 + 1)) :: 16 word"
    have v: "?v = vals ! i" using 1(2) True by simp
    have il: "i < length arr" using True 1(4) by simp
    have ih: "store_values response numberRegisters (i + 1) (arr[i := ?v])
                = Inr (take (i + 1) (arr[i := ?v]) @ drop (i + 1) vals @ drop numberRegisters (arr[i := ?v]))"
      using "1.IH"[OF True refl il] 1(2,3,4) True by simp
    have t: "take (i + 1) (arr[i := ?v]) = take i arr @ [vals ! i]"
      using il v by (simp add: take_Suc_conv_app_nth)
    have d: "drop i vals = vals ! i # drop (i + 1) vals"
      using True 1(3) by (simp add: Cons_nth_drop_Suc)
    have u: "drop numberRegisters (arr[i := ?v]) = drop numberRegisters arr"
      using True by simp
    show ?thesis
      using True il ih t d u by (subst store_values.simps) (simp add: Let_def)
  qed
qed

lemma nth_after_three: "(a # b # c # xs) ! (3 + j) = xs ! j"
  by (simp add: eval_nat_numeral)

lemma read_response_layout:
  "spec_read_response addr vals =
     addr # 0x03 # of_nat (length vals * 2)
       # (big_endian vals @ [lo_byte (spec_crc16 ([addr, 0x03, of_nat (length vals * 2)] @ big_endian vals)),
                            hi_byte (spec_crc16 ([addr, 0x03, of_nat (length vals * 2)] @ big_endian vals))])"
  by (simp add: spec_read_response_def spec_frame_def)

lemma decode_well_formed_response:
  assumes n: "1 \<le> length vals" "length vals \<le> 125" and arr: "length vals \<le> length arr"
  shows "decode_response slaveAddr (Some arr) (length vals) (spec_read_response slaveAddr vals)
           = Inr (True, Some (vals @ drop (length vals) arr))"
proof -
  let ?n = "length vals"
  let ?body = "[slaveAddr, 0x03, of_nat (?n * 2)] @ big_endian vals"
  let ?crc = "spec_crc16 ?body"
  let ?resp = "spec_read_response slaveAddr vals"
  let ?tail = "big_endian vals @ [lo_byte ?crc, hi_byte ?crc]"
  have resp: "?resp = slaveAddr # 0x03 # of_nat (?n * 2) # ?tail" by (rule read_response_layout)
  have r0: "?resp ! 0 = slaveAddr" and r1: "?resp ! 1 = READ" and r2: "?resp ! 2 = of_nat (?n * 2)"
    by (simp_all add: resp READ_def)
  have cnt: "unat (of_nat (?n * 2) :: 8 word) = ?n * 2"
    using n unat_of_nat_small[of "?n * 2"] by simp
  have data: "?resp ! (3 + j) = big_endian vals ! j" if "j < ?n * 2" for j
    using that by (simp only: resp nth_after_three) (simp add: nth_append big_endian_length)
  have lo: "?resp ! (5 + ?n * 2 - 2) = lo_byte ?crc"
  proof -
    have "5 + ?n * 2 - 2 = 3 + ?n * 2" by simp
    then show ?thesis by (simp only: resp nth_after_three) (simp add: nth_append big_endian_length)
  qed
  have hi: "?resp ! (5 + ?n * 2 - 1) = hi_byte ?crc"
  proof -
    have "5 + ?n * 2 - 1 = 3 + (?n * 2 + 1)" by simp
    then show ?thesis by (simp only: resp nth_after_three) (simp add: nth_append big_endian_length)
  qed
  have len: "length ?resp = 5 + ?n * 2" by (simp add: resp big_endian_length)
  have lb: "length ?body = 5 + ?n * 2 - 2" by (simp add: big_endian_length)
  have "take (length ?body) (?body @ [lo_byte ?crc, hi_byte ?crc]) = ?body" by simp
  then have tk: "take (5 + ?n * 2 - 2) ?resp = ?body"
    by (simp only: lb spec_read_response_def spec_frame_def)
  have crc: "calculateCRC (Some ?resp) (of_nat (5 + ?n * 2 - 2)) = Inr ?crc"
    using calculateCRC_of_nat[of "5 + ?n * 2 - 2" ?resp] n len tk by simp
  have vals: "push_bit 8 (ucast (?resp ! (3 + k * 2))) OR ucast (?resp ! (3 + k * 2 + 1)) = vals ! k"
    if "k < ?n" for k
  proof -
    have "?resp ! (3 + k * 2) = hi_byte (vals ! k)"
      using data[of "k * 2"] big_endian_nth[OF that] that by simp
    moreover have "?resp ! (3 + k * 2 + 1) = lo_byte (vals ! k)"
      using data[of "k * 2 + 1"] big_endian_nth[OF that] that by (simp add: add.assoc)
    ultimately show ?thesis by (simp add: join_bytes)
  qed
  have store: "store_values ?resp ?n 0 arr = Inr (vals @ drop ?n arr)"
    using store_values_decodes[of ?n ?resp vals arr 0] vals arr by simp
  have one: "arr[0 := push_bit 8 (ucast (?resp ! 3)) OR ucast (?resp ! 4)] = vals @ drop ?n arr"
    if "?n = 1"
  proof -
    from that obtain v where v: "vals = [v]" by (cases vals) auto
    from arr v obtain a as where a: "arr = a # as" by (cases arr) auto
    have "push_bit 8 (ucast (?resp ! 3)) OR ucast (?resp ! 4) = vals ! 0"
      using vals[of 0] that by simp
    then show ?thesis using v a by simp
  qed
  show ?thesis
    unfolding decode_response_def Let_def
    using r0 r1 r2 cnt crc lo hi store one arr n
    by (auto simp: join_bytes simp del: of_nat_mult of_nat_add)
qed


lemma decode_response_failure:
  "decode_response slaveAddr arrayValues n response = Inr (False, arr') \<Longrightarrow> arr' = arrayValues"
  by (auto simp: decode_response_def Let_def split: if_splits sum.splits option.splits)

lemma list_update_numeral: "(x # xs)[numeral k := y] = x # xs[pred_numeral k := y]"
  by (simp add: numeral_eq_Suc)

lemma replicate_seven: "replicate 7 x = [x, x, x, x, x, x, x]"
  by (simp add: eval_nat_numeral)

lemma receive_seven_at_once:
  assumes "serialPort c = Some p"
    and "millis_in w = [0, 0, 0, 0, 0, 0, 0, 0, 0]"
    and "available_in w = [7, 6, 5, 4, 3, 2, 1, 0]"
    and "read_in w = [b0, b1, b2, b3, b4, b5, b6]"
  shows "receiveData c (Some (replicate 7 0)) 7 w =
           (Inr (True, Some [of_int b0, of_int b1, of_int b2, of_int b3, of_int b4, of_int b5, of_int b6]),
            w\<lparr>millis_in := [], available_in := [], read_in := []\<rparr>)"
  using assms
  by (simp add: receiveData_def replicate_seven recv_loop.simps drain.simps
        millis_def serial_available_def serial_read_def list_update_numeral)


lemma read_response_example:
  "spec_read_response 1 [100] = [0x01, 0x03, 0x02, 0x00, 0x64, 0xB9, 0xAF]"
  by (simp add: spec_read_response_def spec_frame_def big_endian_def spec_crc16_def spec_crc_round_def
        funpow_eight hi_byte_def lo_byte_def)

lemma spec_read_request_length: "length (spec_read_request addr start n) = 8"
  by (simp add: spec_read_request_def spec_frame_def)

lemma sendData_scripts:
  "sendData c data len w = (r, w') \<Longrightarrow>
   millis_in w' = millis_in w \<and> available_in w' = available_in w \<and> read_in w' = read_in w"
  by (auto simp: sendData_def serial_write_def serial_flush_def digitalWrite_def Let_def
        split: option.splits if_splits)

lemma decode_garbled_response:
  "decode_response 1 (Some [7]) 1 [0x01, 0x03, 0x02, 0x00, 0x64, 0xB9, 0xAE] = Inr (False, Some [7])"
  using calculateCRC_spec[of 5 "[0x01, 0x03, 0x02, 0x00, 0x64, 0xB9, 0xAE]"]
  by (simp add: decode_response_def READ_def spec_crc16_def spec_crc_round_def funpow_eight)

text \<open>
  Claim C10. Whenever \<open>readParameters\<close> returns false, on whichever failure path, the
  caller's output array is exactly as it was handed in: the array is assigned only in
  the decoding step that follows the last check.
\<close>

theorem readParameters_failure_keeps_array:
  "readParameters c slaveAddr startAddress arrayValues numberRegisters w = (Inr (False, arr'), w')
   \<Longrightarrow> arr' = arrayValues"
proof (cases "arrayValues = None \<or> numberRegisters = 0 \<or> numberRegisters > 125")
  case True
  assume "readParameters c slaveAddr startAddress arrayValues numberRegisters w = (Inr (False, arr'), w')"
  with True show ?thesis by (auto simp: readParameters_def split: if_splits)
next
  case False
  assume r: "readParameters c slaveAddr startAddress arrayValues numberRegisters w = (Inr (False, arr'), w')"
  from False obtain arr where arr: "arrayValues = Some arr" by auto
  from False have n: "1 \<le> numberRegisters" "numberRegisters \<le> 125" by auto
  show ?thesis
    using r unfolding arr readParameters_unfold[OF n]
    by (auto split: prod.splits sum.splits option.splits if_splits dest: decode_response_failure)
qed

theorem readParameters_failure_keeps_array_witness:
  "readParameters ready_client 1 0x3000 (Some [7]) 1 garbled_world
     = (Inr (False, Some [7]),
        (snd (sendData ready_client (Some (spec_read_request 1 0x3000 1)) 8 garbled_world))
          \<lparr>millis_in := [], available_in := [], read_in := []\<rparr>)
   \<and> Some [7 :: 16 word] = Some [7]"
proof -
  have sp: "serialPort ready_client = Some 0" by (simp add: ready_client_def)
  obtain w1 where send: "sendData ready_client (Some (spec_read_request 1 0x3000 1)) 8 garbled_world = (Inr (), w1)"
    using sendData_effect[of ready_client 0 8 "spec_read_request 1 0x3000 1" garbled_world] sp
    by (simp add: spec_read_request_length)
  let ?w2 = "w1\<lparr>millis_in := [], available_in := [], read_in := []\<rparr>"
  have scripts: "millis_in w1 = [0, 0, 0, 0, 0, 0, 0, 0, 0]" "available_in w1 = [7, 6, 5, 4, 3, 2, 1, 0]"
      "read_in w1 = [0x01, 0x03, 0x02, 0x00, 0x64, 0xB9, 0xAE]"
    using sendData_scripts[OF send] by (simp_all add: garbled_world_def)
  have recv: "receiveData ready_client (Some (replicate (5 + 1 * 2) 0)) (5 + 1 * 2) w1
       = (Inr (True, Some [0x01, 0x03, 0x02, 0x00, 0x64, 0xB9, 0xAE]), ?w2)"
    using receive_seven_at_once[OF sp scripts] by simp
  have run: "readParameters ready_client 1 0x3000 (Some [7]) 1 garbled_world = (Inr (False, Some [7]), ?w2)"
    using readParameters_unfold[of 1 ready_client 1 "0x3000" "[7]" garbled_world]
      send recv decode_garbled_response
    by simp
  have w1: "w1 = snd (sendData ready_client (Some (spec_read_request 1 0x3000 1)) 8 garbled_world)"
    using send by simp
  show ?thesis
    using readParameters_failure_keeps_array [of ready_client 1 "0x3000" "Some [7]" 1 garbled_world "Some [7]" ?w2]
      run
    unfolding w1 by simp
qed

text \<open>
  Claim C6. For 1 to 125 register values, if the reception that follows the request
  completes with the well-formed response for these values (slave address, function
  \<open>0x03\<close>, byte count, the values high byte first from offset 3, and the CRC16 of all
  that low byte first), \<open>readParameters\<close> returns true and the output array holds the
  values in register order in its first cells, its other cells unchanged.
\<close>

theorem readParameters_round_trip:
  assumes "1 \<le> length vals" and "length vals \<le> 125" and "length vals \<le> length arr"
    and "serialPort c = Some p"
    and "receiveData c (Some (replicate (5 + length vals * 2) 0)) (5 + length vals * 2)
           (snd (sendData c (Some (spec_read_request slaveAddr startAddress (length vals))) 8 w))
         = (Inr (True, Some (spec_read_response slaveAddr vals)), w')"
  shows "readParameters c slaveAddr startAddress (Some arr) (length vals) w
         = (Inr (True, Some (vals @ drop (length vals) arr)), w')"
proof -
  let ?frame = "spec_read_request slaveAddr startAddress (length vals)"
  have len: "length ?frame = 8" by (simp add: spec_read_request_def spec_frame_def)
  obtain w1 where send: "sendData c (Some ?frame) 8 w = (Inr (), w1)"
    using sendData_effect[of c p 8 ?frame w] assms(4) len by simp
  have recv: "receiveData c (Some (replicate (5 + length vals * 2) 0)) (5 + length vals * 2) w1
         = (Inr (True, Some (spec_read_response slaveAddr vals)), w')"
    using assms(5) send by simp
  show ?thesis
    unfolding readParameters_unfold[OF assms(1,2)]
    using send recv decode_well_formed_response[OF assms(1,2,3)] by simp
qed

theorem readParameters_round_trip_witness:
  "1 \<le> length [100 :: 16 word] \<and> length [100 :: 16 word] \<le> 125
   \<and> length [100 :: 16 word] \<le> length [7 :: 16 word]
   \<and> serialPort ready_client = Some 0
   \<and> readParameters ready_client 1 0x3000 (Some [7]) (length [100 :: 16 word]) answering_world
       = (Inr (True, Some [100]),
          (snd (sendData ready_client (Some (spec_read_request 1 0x3000 1)) 8 answering_world))
            \<lparr>millis_in := [], available_in := [], read_in := []\<rparr>)
   \<and> receiveData ready_client (Some (replicate 7 0)) 7
         (snd (sendData ready_client (Some (spec_read_request 1 0x3000 1)) 8 answering_world))
       = (Inr (True, Some (spec_read_response 1 [100])),
          (snd (sendData ready_client (Some (spec_read_request 1 0x3000 1)) 8 answering_world))
            \<lparr>millis_in := [], available_in := [], read_in := []\<rparr>)"
proof -
  let ?w1 = "snd (sendData ready_client (Some (spec_read_request 1 0x3000 1)) 8 answering_world)"
  have sp: "serialPort ready_client = Some 0" by (simp add: ready_client_def)
  have send: "sendData ready_client (Some (spec_read_request 1 0x3000 1)) 8 answering_world = (Inr (), ?w1)"
    using sendData_effect[of ready_client 0 8 "spec_read_request 1 0x3000 1" answering_world] sp
    by (simp add: spec_read_request_length)
  have scripts: "millis_in ?w1 = [0, 0, 0, 0, 0, 0, 0, 0, 0]" "available_in ?w1 = [7, 6, 5, 4, 3, 2, 1, 0]"
      "read_in ?w1 = [0x01, 0x03, 0x02, 0x00, 0x64, 0xB9, 0xAF]"
    using sendData_scripts[OF send] by (simp_all add: answering_world_def)
  have recv: "receiveData ready_client (Some (replicate (5 + length [100 :: 16 word] * 2) 0))
         (5 + length [100 :: 16 word] * 2)
         (snd (sendData ready_client (Some (spec_read_request 1 0x3000 (length [100 :: 16 word]))) 8 answering_world))
       = (Inr (True, Some (spec_read_response 1 [100])),
          ?w1\<lparr>millis_in := [], available_in := [], read_in := []\<rparr>)"
    using receive_seven_at_once[OF sp scripts] by (simp add: read_response_example)
  show ?thesis
    using readParameters_round_trip [of "[100]" "[7]" ready_client 0 1 "0x3000" answering_world
        "?w1\<lparr>millis_in := [], available_in := [], read_in := []\<rparr>"] recv sp
    by simp
qed

section \<open>Properties of the write orchestrator\<close>

text \<open>
  Claim C1 (the code departs from it). A write of 123 registers, the documented
  maximum, passes the checks on the pointer and on \<open>MAX_MODBUS_REGISTERS\<close>, but its
  request of \<open>9 + 123 * 2 = 255\<close> bytes exceeds \<open>MAX_REQUEST_SIZE = 7 + 123 * 2 = 253\<close>:
  \<open>writeParameters\<close> returns false and nothing is transmitted.
\<close>

theorem writeParameters_123_rejected:
  "writeParameters c slaveAddr startAddress (Some vals) 123 w = (Inr False, w)"
  by (simp add: writeParameters_def MAX_MODBUS_REGISTERS_def MAX_REQUEST_SIZE_def)

lemma writeParameters_rejects:
  "arrayValues = None \<or> n = 0 \<or> n > 123 \<Longrightarrow>
   writeParameters c slaveAddr startAddress arrayValues n w = (Inr False, w)"
  by (auto simp add: writeParameters_def MAX_MODBUS_REGISTERS_def MAX_REQUEST_SIZE_def)

lemma update_pair_take:
  "a + 1 < length xs \<Longrightarrow> take (a + 2) (xs[a := x, a + 1 := y]) = take a xs @ [x, y]"
proof -
  assume h: "a + 1 < length xs"
  have "a + 2 = Suc (Suc a)" by simp
  then show ?thesis using h by (simp add: take_Suc_conv_app_nth)
qed

lemma fill_values_layout:
  assumes "length request = 9 + n * 2" and "n \<le> length arr" and "i \<le> n"
  shows "fill_values (Some arr) n i request =
           Inr (take (7 + i * 2) request @ big_endian (drop i (take n arr)) @ drop (7 + n * 2) request)"
  using assms
proof (induction "Some arr" n i request rule: fill_values.induct)
  case (1 numberRegisters i request)
  show ?case
  proof (cases "i < numberRegisters")
    case False
    with 1 show ?thesis by (subst fill_values.simps) (simp add: big_endian_def)
  next
    case True
    let ?v = "arr ! i"
    let ?req = "request[7 + i * 2 := ucast (drop_bit 8 ?v), 8 + i * 2 := ucast (?v AND 0xFF)]"
    have il: "i < length arr" using True 1(3) by simp
    have d: "deref (Some arr) i = Inr ?v" using il by (simp add: deref_def)
    have ih: "fill_values (Some arr) numberRegisters (i + 1) ?req
                = Inr (take (7 + (i + 1) * 2) ?req @ big_endian (drop (i + 1) (take numberRegisters arr))
                       @ drop (7 + numberRegisters * 2) ?req)"
      using "1.hyps"[OF True d] 1(2,3) True by simp
    have bytes: "?req = request[7 + i * 2 := hi_byte ?v, (7 + i * 2) + 1 := lo_byte ?v]"
      by (simp add: hi_byte_def code_lo_byte add.commute add.left_commute)
    have inb: "(7 + i * 2) + 1 < length request" using True 1(2) by simp
    have t: "take (7 + (i + 1) * 2) ?req = take (7 + i * 2) request @ [hi_byte ?v, lo_byte ?v]"
    proof -
      have "7 + (i + 1) * 2 = (7 + i * 2) + 2" by simp
      then show ?thesis unfolding bytes using update_pair_take[OF inb] by simp
    qed
    have dr: "drop (7 + numberRegisters * 2) ?req = drop (7 + numberRegisters * 2) request"
      using True by simp
    have dv: "drop i (take numberRegisters arr) = ?v # drop (i + 1) (take numberRegisters arr)"
      using True il 1(3) by (simp add: Cons_nth_drop_Suc[symmetric])
    show ?thesis
      using True d ih t dr dv by (subst fill_values.simps) (simp add: big_endian_Cons)
  qed
qed


lemma header_cells:
  "(replicate (9 + m) z)[0 := b0, 1 := b1, 2 := b2, 3 := b3, 4 := b4, 5 := b5, 6 := b6]
     = [b0, b1, b2, b3, b4, b5, b6] @ replicate (2 + m) z"
  by (simp add: eval_nat_numeral)

lemma drop_after_seven: "drop (7 + k) (a0 # a1 # a2 # a3 # a4 # a5 # a6 # xs) = drop k xs"
  by (simp add: eval_nat_numeral)

lemma set_trailing_pair: "length body = m \<Longrightarrow> (body @ [a, b])[m := x, m + 1 := y] = body @ [x, y]"
  by (simp add: list_update_append)

lemma write_request_multiple:
  assumes "1 < n" and "n \<le> length arr"
  shows "write_request slaveAddr startAddress (Some arr) n (9 + n * 2) =
     Inr ([slaveAddr, 0x10, hi_byte startAddress, lo_byte startAddress,
           of_nat (n div 256), of_nat (n mod 256), of_nat (n * 2)]
          @ big_endian (take n arr) @ [0, 0])"
proof -
  let ?hdr = "[slaveAddr, WRITE_RANGE, ucast (drop_bit 8 startAddress), ucast (startAddress AND 0xFF),
               of_nat (drop_bit 8 n), of_nat (n AND 0xFF), of_nat (n * 2)] :: 8 word list"
  let ?req = "?hdr @ replicate (2 + n * 2) 0"
  have req: "(replicate (9 + n * 2) 0)
               [0 := slaveAddr, 1 := WRITE_RANGE, 2 := ucast (drop_bit 8 startAddress),
                3 := ucast (startAddress AND 0xFF), 4 := of_nat (drop_bit 8 n),
                5 := of_nat (n AND 0xFF), 6 := of_nat (n * 2)] = ?req"
    by (rule header_cells)
  have len: "length ?req = 9 + n * 2" by simp
  have tk: "take (7 + 0 * 2) ?req = ?hdr" by simp
  have dr: "drop (7 + n * 2) ?req = [0, 0]"
  proof -
    have "drop (7 + n * 2) ?req = drop (n * 2) (replicate (2 + n * 2) (0 :: 8 word))"
      by (simp only: append.simps drop_after_seven)
    also have "\<dots> = replicate 2 0" by (simp only: drop_replicate add_diff_cancel_right')
    also have "\<dots> = [0, 0]" by (simp add: eval_nat_numeral)
    finally show ?thesis .
  qed
  have fill: "fill_values (Some arr) n 0 ?req = Inr (?hdr @ big_endian (take n arr) @ [0, 0])"
    using fill_values_layout[OF len assms(2), of 0] tk dr by simp
  have hdr: "?hdr = [slaveAddr, 0x10, hi_byte startAddress, lo_byte startAddress,
           of_nat (n div 256), of_nat (n mod 256), of_nat (n * 2)]"
    by (simp add: WRITE_RANGE_def hi_byte_def code_lo_byte nat_and_ff nat_drop8)
  have n1: "n \<noteq> 1" using assms(1) by simp
  note fill' = fill[unfolded hdr]
  show ?thesis
    unfolding write_request_def Let_def
    by (simp only: n1 assms(1) if_False if_True req fill' hdr)
qed

lemma write_request_single:
  assumes "1 \<le> length arr"
  shows "write_request slaveAddr startAddress (Some arr) 1 8 =
     Inr ([slaveAddr, 0x06, hi_byte startAddress, lo_byte startAddress, hi_byte (arr ! 0), lo_byte (arr ! 0)]
          @ [0, 0])"
proof -
  have d: "deref (Some arr) 0 = Inr (arr ! 0)" using assms by (cases arr) (simp_all add: deref_def)
  show ?thesis
    unfolding write_request_def Let_def replicate_eight
    by (simp only: d if_True sum.case update_first_six refl)
       (simp add: WRITE_ONE_def hi_byte_def code_lo_byte)
qed


lemma writeParameters_unfold:
  assumes n: "n \<noteq> 0" "\<not> n > MAX_MODBUS_REGISTERS"
    and rs: "(if n = 1 then 8 else 9 + n * 2) = rs" "\<not> rs > MAX_REQUEST_SIZE"
    and req: "write_request slaveAddr startAddress (Some arr) n rs = Inr (body @ [0, 0])"
    and len: "length body + 2 = rs"
  shows "writeParameters c slaveAddr startAddress (Some arr) n w =
     (case sendData c (Some (spec_frame body)) rs w of
        (Inl e, w1) \<Rightarrow> (Inl e, w1)
      | (Inr u, w1) \<Rightarrow>
          (case receiveData c (Some (replicate 8 0)) 8 w1 of
             (Inl e, w2) \<Rightarrow> (Inl e, w2)
           | (Inr (ok, response), w2) \<Rightarrow>
               if \<not> ok then (Inr False, w2)
               else (validateModbusResponse response 8 slaveAddr (spec_frame body ! 1), w2)))"
proof -
  have m: "rs - 2 = length body" "rs - 1 = length body + 1" using len by auto
  have small: "0 < length body" "length body < 256"
    using len rs n by (auto simp: MAX_REQUEST_SIZE_def MAX_MODBUS_REGISTERS_def split: if_splits)
  have "take (length body) (body @ [0, 0]) = body" by simp
  then have crc: "calculateCRC (Some (body @ [0, 0])) (of_nat (rs - 2)) = Inr (spec_crc16 body)"
    using calculateCRC_of_nat[of "length body" "body @ [0, 0]"] small by (simp add: m)
  have frame: "(body @ [0, 0])[rs - 2 := ucast (spec_crc16 body AND 0xFF),
                             rs - 1 := ucast (drop_bit 8 (spec_crc16 body) AND 0xFF)] = spec_frame body"
    unfolding m spec_frame_def code_lo_byte lo_byte_drop_bit by (rule set_trailing_pair) simp
  have g: "\<not> (Some arr = None \<or> n = 0)" using n by simp
  show ?thesis
    by (simp only: writeParameters_def g n rs if_False Let_def req sum.case crc frame
          option.distinct simp_thms)
qed

lemma write_single_example: "spec_write_single 1 0x2000 5 = [0x01, 0x06, 0x20, 0x00, 0x00, 0x05, 0x42, 0x09]"
  by (simp add: spec_write_single_def spec_frame_def spec_crc16_def spec_crc_round_def funpow_eight
        hi_byte_def lo_byte_def)

lemma write_multiple_example:
  "spec_write_multiple 1 0x2000 [5, 6]
     = [0x01, 0x10, 0x20, 0x00, 0x00, 0x02, 0x04, 0x00, 0x05, 0x00, 0x06, 0xFA, 0x6D]"
  by (simp add: spec_write_multiple_def spec_frame_def big_endian_def spec_crc16_def spec_crc_round_def
        funpow_eight hi_byte_def lo_byte_def)

text \<open>
  Claim C7. For a write request that passes the checks made before any I/O (non-null
  array, count not 0, count at most \<open>MAX_MODBUS_REGISTERS\<close>, request size at most
  \<open>MAX_REQUEST_SIZE\<close>): a count of 1 transmits the 8-byte frame
  \<open>[addr][0x06][addrHi][addrLo][valHi][valLo][crcLo][crcHi]\<close>, and a count above 1
  transmits \<open>[addr][0x10][startHi][startLo][countHi][countLo][byteCount][values...]
  [crcLo][crcHi]\<close> with \<open>byteCount = count * 2\<close> and every value high byte first; in both
  the CRC16 of the preceding bytes is appended low byte first.
\<close>

theorem writeParameters_request_frames:
  "(serialPort c = Some p \<and> 1 \<le> length arr \<longrightarrow>
      calls (snd (writeParameters c slaveAddr startAddress (Some arr) 1 w)) =
        calls w @ [DigitalWrite (transmitterModeContact c) RS485Transmit,
                   SerialWrite p (spec_write_single slaveAddr startAddress (arr ! 0)),
                   SerialFlush p,
                   DigitalWrite (transmitterModeContact c) RS485Receive])
   \<and> (serialPort c = Some p \<and> 1 < n \<and> n \<le> length arr
        \<and> n \<le> MAX_MODBUS_REGISTERS \<and> 9 + n * 2 \<le> MAX_REQUEST_SIZE \<longrightarrow>
      calls (snd (writeParameters c slaveAddr startAddress (Some arr) n w)) =
        calls w @ [DigitalWrite (transmitterModeContact c) RS485Transmit,
                   SerialWrite p (spec_write_multiple slaveAddr startAddress (take n arr)),
                   SerialFlush p,
                   DigitalWrite (transmitterModeContact c) RS485Receive])"
proof -
  have sends: "calls (snd (writeParameters c slaveAddr startAddress (Some arr) k w)) =
        calls w @ [DigitalWrite (transmitterModeContact c) RS485Transmit,
                   SerialWrite p (spec_frame body),
                   SerialFlush p,
                   DigitalWrite (transmitterModeContact c) RS485Receive]"
    if sp: "serialPort c = Some p"
      and u: "writeParameters c slaveAddr startAddress (Some arr) k w =
     (case sendData c (Some (spec_frame body)) rs w of
        (Inl e, w1) \<Rightarrow> (Inl e, w1)
      | (Inr u, w1) \<Rightarrow>
          (case receiveData c (Some (replicate 8 0)) 8 w1 of
             (Inl e, w2) \<Rightarrow> (Inl e, w2)
           | (Inr (ok, response), w2) \<Rightarrow>
               if \<not> ok then (Inr False, w2)
               else (validateModbusResponse response 8 slaveAddr (spec_frame body ! 1), w2)))"
      and len: "length body + 2 = rs"
    for k body rs
  proof -
    let ?sent = "[DigitalWrite (transmitterModeContact c) RS485Transmit, SerialWrite p (spec_frame body),
                  SerialFlush p, DigitalWrite (transmitterModeContact c) RS485Receive]"
    have fl: "length (spec_frame body) = rs" using len by (simp add: spec_frame_def)
    obtain w1 where send: "sendData c (Some (spec_frame body)) rs w = (Inr (), w1)"
        and c1: "calls w1 = calls w @ ?sent"
      using sendData_effect[of c p rs "spec_frame body" w] sp fl by simp
    obtain r2 w2 where recv: "receiveData c (Some (replicate 8 0)) 8 w1 = (r2, w2)"
      by (cases "receiveData c (Some (replicate 8 0)) 8 w1")
    have c2: "calls w2 = calls w @ ?sent" using receiveData_calls[OF recv] c1 by simp
    have "snd (writeParameters c slaveAddr startAddress (Some arr) k w) = w2"
      unfolding u using send recv by (auto split: sum.splits)
    then show ?thesis using c2 by simp
  qed
  show ?thesis
  proof (intro conjI impI)
    assume h: "serialPort c = Some p \<and> 1 \<le> length arr"
    let ?body = "[slaveAddr, 0x06, hi_byte startAddress, lo_byte startAddress,
                  hi_byte (arr ! 0), lo_byte (arr ! 0)]"
    have u: "writeParameters c slaveAddr startAddress (Some arr) 1 w =
     (case sendData c (Some (spec_frame ?body)) 8 w of
        (Inl e, w1) \<Rightarrow> (Inl e, w1)
      | (Inr u, w1) \<Rightarrow>
          (case receiveData c (Some (replicate 8 0)) 8 w1 of
             (Inl e, w2) \<Rightarrow> (Inl e, w2)
           | (Inr (ok, response), w2) \<Rightarrow>
               if \<not> ok then (Inr False, w2)
               else (validateModbusResponse response 8 slaveAddr (spec_frame ?body ! 1), w2)))"
      by (rule writeParameters_unfold[OF _ _ _ _ write_request_single])
         (use h in \<open>simp_all add: MAX_MODBUS_REGISTERS_def MAX_REQUEST_SIZE_def\<close>)
    show "calls (snd (writeParameters c slaveAddr startAddress (Some arr) 1 w)) =
        calls w @ [DigitalWrite (transmitterModeContact c) RS485Transmit,
                   SerialWrite p (spec_write_single slaveAddr startAddress (arr ! 0)),
                   SerialFlush p,
                   DigitalWrite (transmitterModeContact c) RS485Receive]"
      using sends[OF conjunct1[OF h] u] by (simp add: spec_write_single_def)
  next
    assume h: "serialPort c = Some p \<and> 1 < n \<and> n \<le> length arr
        \<and> n \<le> MAX_MODBUS_REGISTERS \<and> 9 + n * 2 \<le> MAX_REQUEST_SIZE"
    let ?body = "[slaveAddr, 0x10, hi_byte startAddress, lo_byte startAddress,
           of_nat (n div 256), of_nat (n mod 256), of_nat (n * 2)] @ big_endian (take n arr)"
    have wr: "write_request slaveAddr startAddress (Some arr) n (9 + n * 2) = Inr (?body @ [0, 0])"
      using write_request_multiple[of n arr slaveAddr startAddress] h by simp
    have u: "writeParameters c slaveAddr startAddress (Some arr) n w =
     (case sendData c (Some (spec_frame ?body)) (9 + n * 2) w of
        (Inl e, w1) \<Rightarrow> (Inl e, w1)
      | (Inr u, w1) \<Rightarrow>
          (case receiveData c (Some (replicate 8 0)) 8 w1 of
             (Inl e, w2) \<Rightarrow> (Inl e, w2)
           | (Inr (ok, response), w2) \<Rightarrow>
               if \<not> ok then (Inr False, w2)
               else (validateModbusResponse response 8 slaveAddr (spec_frame ?body ! 1), w2)))"
      by (rule writeParameters_unfold[OF _ _ _ _ wr])
         (use h in \<open>simp_all add: big_endian_length\<close>)
    have tl: "length (take n arr) = n" using h by simp
    show "calls (snd (writeParameters c slaveAddr startAddress (Some arr) n w)) =
        calls w @ [DigitalWrite (transmitterModeContact c) RS485Transmit,
                   SerialWrite p (spec_write_multiple slaveAddr startAddress (take n arr)),
                   SerialFlush p,
                   DigitalWrite (transmitterModeContact c) RS485Receive]"
      using sends[OF conjunct1[OF h] u] h by (simp add: spec_write_multiple_def min_absorb2 big_endian_length)
  qed
qed

theorem writeParameters_request_frames_witness:
  "serialPort ready_client = Some 0 \<and> 1 \<le> length [5, 6 :: 16 word]
   \<and> (1 :: nat) < 2 \<and> 2 \<le> length [5, 6 :: 16 word]
   \<and> 2 \<le> MAX_MODBUS_REGISTERS \<and> 9 + 2 * 2 \<le> MAX_REQUEST_SIZE
   \<and> calls (snd (writeParameters ready_client 1 0x2000 (Some [5, 6]) 1 silent_world)) =
        [DigitalWrite 2 HIGH, SerialWrite 0 [0x01, 0x06, 0x20, 0x00, 0x00, 0x05, 0x42, 0x09],
         SerialFlush 0, DigitalWrite 2 LOW]
   \<and> calls (snd (writeParameters ready_client 1 0x2000 (Some [5, 6]) 2 silent_world)) =
        [DigitalWrite 2 HIGH,
         SerialWrite 0 [0x01, 0x10, 0x20, 0x00, 0x00, 0x02, 0x04, 0x00, 0x05, 0x00, 0x06, 0xFA, 0x6D],
         SerialFlush 0, DigitalWrite 2 LOW]"
  using writeParameters_request_frames [of ready_client 0 "[5, 6]" 1 "0x2000" silent_world 2]
    write_single_example write_multiple_example
  by (simp add: ready_client_def silent_world_def MAX_MODBUS_REGISTERS_def MAX_REQUEST_SIZE_def
        RS485Transmit_def RS485Receive_def)

end
